theory Spec2Isabelle
  imports Main "HOL-Library.Multiset"
begin

section \<open>Shared definitions (defs.py)\<close>

text \<open>Python strings are modelled as \<open>string\<close> (lists of 8-bit characters); a
  one-character Python string is a singleton list.  Seats are the indices 0..3 into
  \<open>ORDER\<close>.\<close>

definition ORDER :: "string list" where
  "ORDER = [''N'', ''E'', ''S'', ''W'']"

definition str_digit :: "nat \<Rightarrow> string" where
  "str_digit n = [''0123456789'' ! n]"

definition RANKS :: "string list" where
  "RANKS = [''A'', ''K'', ''Q'', ''J'', ''T''] @ map str_digit (rev [2..<10])"

definition SUITS :: "string list" where
  "SUITS = [''S'', ''H'', ''D'', ''C'', ''N'']"

definition ORDERED_CONTRACT_BIDS :: "string list" where
  "ORDERED_CONTRACT_BIDS =
     concat (map (\<lambda>level. map (\<lambda>trump. str_digit level @ trump)
                                [''C'', ''D'', ''H'', ''S'', ''N'']) [1..<8])"

section \<open>Exceptions (exceptions.py)\<close>

datatype board_error =
    MissingDealError | UnbalancedDealError | CardError | MissingNamesError | ClaimError
  | ContractContradictionError | DeclarerContradictionError | LeadContradictionError
  | PassContradictionError

datatype auction_error =
    MissingAuctionError | PassError | ContractBidError | DoubleBidError | RedoubleBidError

datatype play_sequence_error =
    MissingPlaySequenceInfoError | FirstCardIsDashError | CardAfterDashError
  | UnbalancedPlaySequenceError | MultipleClaimError | PlayError | RenegeError

text \<open>Everything a function of the repository can raise: the three documented families,
  the internal \<open>ContradictionError\<close>, and the built-in exceptions of the Python
  operations the code uses (\<open>list.index\<close>, \<open>list.remove\<close>, \<open>int\<close>, \<open>max\<close>:
  \<open>ValueError\<close>; subscripting: \<open>IndexError\<close>; dictionary lookup: \<open>KeyError\<close>; an
  object of the wrong type: \<open>TypeError\<close>).\<close>

datatype exn =
    BoardError board_error
  | AuctionError auction_error
  | PlaySequenceError play_sequence_error
  | ContradictionError
  | ValueError | IndexError | KeyError | TypeError

section \<open>Scoring (dds.py)\<close>

text \<open>\<open>int(undertricks//1.5)\<close> is the floor of \<open>undertricks / 1.5\<close>, that is
  \<open>(2 * undertricks) div 3\<close> (the float arithmetic is exact on trick counts);
  \<open>if year and year <= 1987\<close> tests \<open>year \<noteq> 0\<close> first.\<close>

definition compute_undertrick_points :: "int \<Rightarrow> string \<Rightarrow> bool \<Rightarrow> int \<Rightarrow> int" where
  "compute_undertrick_points undertricks double declarer_vulnerable year =
     (let multiplier = (if double = ''R'' then 2 else 1 :: int) in
      if \<not> declarer_vulnerable then
        (if double = [] then (- 50) * undertricks
         else if year \<noteq> 0 \<and> year \<le> 1987 then
           (- 100 * multiplier) - ((200 * multiplier) * (undertricks - 1))
         else
           (- 100 * multiplier) - ((200 * multiplier) * (min 2 ((2 * undertricks) div 3)))
             - ((300 * multiplier) * (max (undertricks - 3) 0)))
      else
        (if double = [] then (- 100) * undertricks
         else (- 200 * multiplier) - ((300 * multiplier) * (undertricks - 1))))"

definition compute_contract_points :: "int \<Rightarrow> string \<Rightarrow> string \<Rightarrow> int" where
  "compute_contract_points level trump double =
     (let multiplier = (if double = ''R'' then 4 else if double = ''X'' then 2 else 1 :: int) in
      if trump \<in> set [''C'', ''D''] then (20 * level) * multiplier
      else if trump \<in> set [''S'', ''H''] then (30 * level) * multiplier
      else ((30 * level) * multiplier) + (10 * multiplier))"

text \<open>\<open>int(500*multiplier)\<close> with \<open>multiplier\<close> 1 or 1.5 is 500 or 750, and
  \<open>int(1000*multiplier)\<close> is 1000 or 1500.\<close>

definition compute_bonus_points :: "int \<Rightarrow> int \<Rightarrow> int \<Rightarrow> string \<Rightarrow> bool \<Rightarrow> int" where
  "compute_bonus_points level will_make contract_points double declarer_vulnerable =
     (let b1 = (if contract_points \<noteq> 0 \<and> contract_points < 100 then 50 else 0 :: int);
          b2 = (if contract_points \<ge> 100
                then (if \<not> declarer_vulnerable then b1 + 300 else b1 + 500) else b1);
          b3 = (if level = 6 \<and> will_make \<ge> 12
                then b2 + (if declarer_vulnerable then 750 else 500) else b2);
          b4 = (if level = 7 \<and> will_make = 13
                then b3 + (if declarer_vulnerable then 1500 else 1000) else b3);
          b5 = (if contract_points \<noteq> 0 \<and> double = ''X'' then b4 + 50 else b4);
          b6 = (if contract_points \<noteq> 0 \<and> double = ''R'' then b5 + 100 else b5)
      in b6)"

definition compute_overtrick_points :: "int \<Rightarrow> string \<Rightarrow> string \<Rightarrow> bool \<Rightarrow> int" where
  "compute_overtrick_points overtricks trump double declarer_vulnerable =
     (if double = [] \<and> trump \<in> set [''C'', ''D''] then overtricks * 20
      else if double = [] \<and> trump \<in> set [''S'', ''H'', ''N''] then overtricks * 30
      else
        (let m1 = (if declarer_vulnerable then 2 else 1 :: int);
             multiplier = (if double = ''R'' then m1 * 2 else m1)
         in overtricks * 100 * multiplier))"

text \<open>\<open>int(contract[0])\<close> on a one-character string: a decimal digit or \<open>ValueError\<close>.\<close>

definition int_of_char :: "char \<Rightarrow> exn + int" where
  "int_of_char c =
     (if c \<in> set ''0123456789''
      then Inr (int (of_char c) - 48) else Inl ValueError)"

definition compute_score :: "string \<Rightarrow> int \<Rightarrow> bool \<Rightarrow> int \<Rightarrow> exn + int" where
  "compute_score contract will_make declarer_vulnerable year =
     (case contract of
        [] \<Rightarrow> Inl IndexError
      | c0 # rest \<Rightarrow>
         (case int_of_char c0 of
            Inl e \<Rightarrow> Inl e
          | Inr level \<Rightarrow>
             (case rest of
                [] \<Rightarrow> Inl IndexError
              | c1 # rest2 \<Rightarrow>
                 (let trump = [c1];
                      double = (case rest2 of [] \<Rightarrow> [] | c2 # _ \<Rightarrow> [c2])
                  in if will_make < level + 6 then
                       Inr (compute_undertrick_points ((level + 6) - will_make) double
                              declarer_vulnerable year)
                     else
                       (let score = compute_contract_points level trump double;
                            score2 = score + compute_bonus_points level will_make score double
                                               declarer_vulnerable;
                            score3 = score2 + compute_overtrick_points (will_make - (level + 6))
                                               trump double declarer_vulnerable
                        in Inr score3)))))"

section \<open>Python string operations\<close>

text \<open>\<open>s.split(sep)\<close> with an explicit one-character separator: every occurrence
  splits, so adjacent separators give empty fields and the empty string gives one empty
  field.  \<open>s.replace(old, new)\<close> replaces the non-overlapping occurrences from the
  left.\<close>

fun split_on :: "char \<Rightarrow> string \<Rightarrow> string list" where
  "split_on sep [] = [[]]"
| "split_on sep (c # cs) =
     (if c = sep then [] # split_on sep cs
      else (case split_on sep cs of w # ws \<Rightarrow> (c # w) # ws | [] \<Rightarrow> [[c]]))"

function str_replace :: "string \<Rightarrow> string \<Rightarrow> string \<Rightarrow> string" where
  "str_replace [] old new = (if old = [] then new else [])"
| "str_replace (c # cs) old new =
     (if old = [] then new @ c # str_replace cs old new
      else if take (length old) (c # cs) = old
           then new @ str_replace (drop (length old) (c # cs)) old new
      else c # str_replace cs old new)"
  by pat_completeness auto
termination
  by (relation "measure (\<lambda>(s, old, new). length s)") auto

section \<open>Declarer candidates (dds.py)\<close>

text \<open>The dictionary from denomination to candidate set is a map; the lookup
  \<open>suit_to_declarer_candidates[bid[1]]\<close> raises \<open>KeyError\<close> on a missing key.\<close>

fun ddc_loop :: "string list \<Rightarrow> nat \<Rightarrow> (string \<rightharpoonup> nat set) \<Rightarrow> exn + (string \<rightharpoonup> nat set)" where
  "ddc_loop [] bidder_index m = Inr m"
| "ddc_loop (bid # bids) bidder_index m =
     (if bid \<in> set ORDERED_CONTRACT_BIDS then
        (case m [bid ! 1] of
           None \<Rightarrow> Inl KeyError
         | Some cands \<Rightarrow>
            if bidder_index \<in> cands \<and> (bidder_index + 2) mod 4 \<in> cands
            then ddc_loop bids ((bidder_index + 1) mod 4)
                   (m([bid ! 1] \<mapsto> cands - {(bidder_index + 2) mod 4}))
            else ddc_loop bids ((bidder_index + 1) mod 4) m)
      else ddc_loop bids ((bidder_index + 1) mod 4) m)"

definition determine_declarer_candidates :: "string \<Rightarrow> nat \<Rightarrow> exn + (string \<rightharpoonup> nat set)" where
  "determine_declarer_candidates auction bidstart_index =
     ddc_loop (split_on CHR '' '' auction) bidstart_index
       [''S'' \<mapsto> {0, 1, 2, 3}, ''H'' \<mapsto> {0, 1, 2, 3}, ''C'' \<mapsto> {0, 1, 2, 3},
        ''D'' \<mapsto> {0, 1, 2, 3}, ''N'' \<mapsto> {0, 1, 2, 3}]"

text \<open>The rule as the specification words it: whenever a seat bids a denomination for
  which its partner is still eligible, the partner is removed (no test on the bidder).\<close>

fun spec_candidates_loop :: "string list \<Rightarrow> nat \<Rightarrow> (string \<rightharpoonup> nat set) \<Rightarrow> exn + (string \<rightharpoonup> nat set)" where
  "spec_candidates_loop [] seat m = Inr m"
| "spec_candidates_loop (bid # bids) seat m =
     (if bid \<in> set ORDERED_CONTRACT_BIDS then
        (case m [bid ! 1] of
           None \<Rightarrow> Inl KeyError
         | Some eligible \<Rightarrow>
            if (seat + 2) mod 4 \<in> eligible
            then spec_candidates_loop bids ((seat + 1) mod 4)
                   (m([bid ! 1] \<mapsto> eligible - {(seat + 2) mod 4}))
            else spec_candidates_loop bids ((seat + 1) mod 4) m)
      else spec_candidates_loop bids ((seat + 1) mod 4) m)"

definition spec_declarer_candidates :: "string \<Rightarrow> nat \<Rightarrow> exn + (string \<rightharpoonup> nat set)" where
  "spec_declarer_candidates auction bidstart_seat =
     spec_candidates_loop (split_on CHR '' '' auction) bidstart_seat
       [''S'' \<mapsto> {0, 1, 2, 3}, ''H'' \<mapsto> {0, 1, 2, 3}, ''C'' \<mapsto> {0, 1, 2, 3},
        ''D'' \<mapsto> {0, 1, 2, 3}, ''N'' \<mapsto> {0, 1, 2, 3}]"

text \<open>The first seat of a side (seat parity) to bid a denomination, and the evolution
  of the candidate set of one denomination alone.\<close>

fun first_bidder :: "string list \<Rightarrow> nat \<Rightarrow> string \<Rightarrow> nat \<Rightarrow> nat option" where
  "first_bidder [] bidder d side = None"
| "first_bidder (bid # bids) bidder d side =
     (if bid \<in> set ORDERED_CONTRACT_BIDS \<and> [bid ! 1] = d \<and> bidder mod 2 = side
      then Some bidder else first_bidder bids ((bidder + 1) mod 4) d side)"


fun final_cands :: "nat set \<Rightarrow> string list \<Rightarrow> nat \<Rightarrow> string \<Rightarrow> nat set" where
  "final_cands c [] bidder d = c"
| "final_cands c (bid # bids) bidder d =
     final_cands (if bid \<in> set ORDERED_CONTRACT_BIDS \<and> [bid ! 1] = d \<and> bidder \<in> c
                     \<and> (bidder + 2) mod 4 \<in> c
                  then c - {(bidder + 2) mod 4} else c) bids ((bidder + 1) mod 4) d"

section \<open>Vulnerability (data_cleaning.py)\<close>

text \<open>The loop variable of the normalisation loop is named \<open>vulnerable\<close> as the
  parameter is: each iteration assigns the dictionary key to it and then replaces the key by
  its replacement inside the key itself, so the value carried into the iteration is
  discarded.\<close>

definition get_vulnerable_players :: "string \<Rightarrow> string set" where
  "get_vulnerable_players vulnerable0 =
     (let RECOGNIZABLE_VULNERABILITY = [(''NZ'', ''NS''), (''All]'', ''All'')];
          vulnerable = foldl (\<lambda>_ (vulnerable, replacement).
                                 str_replace vulnerable vulnerable replacement)
                             vulnerable0 RECOGNIZABLE_VULNERABILITY
      in if vulnerable = ''NS'' then set [''N'', ''S'']
         else if vulnerable = ''EW'' then set [''E'', ''W'']
         else if vulnerable = ''All'' then set [''N'', ''E'', ''S'', ''W'']
         else {})"

section \<open>Python string operations, continued\<close>

text \<open>\<open>s.upper()\<close> on ASCII text; \<open>s.rstrip(chars)\<close> and \<open>s.lstrip(chars)\<close>
  remove the trailing and leading characters that belong to \<open>chars\<close> (a set of
  characters, not a prefix); \<open>sep.join(xs)\<close>; \<open>s.find(sub, start)\<close> is the lowest index
  at or after \<open>start\<close> where \<open>sub\<close> occurs, or -1.\<close>

definition upper_char :: "char \<Rightarrow> char" where
  "upper_char c =
     (case map_of (zip ''abcdefghijklmnopqrstuvwxyz'' ''ABCDEFGHIJKLMNOPQRSTUVWXYZ'') c of
        Some u \<Rightarrow> u | None \<Rightarrow> c)"

definition upper :: "string \<Rightarrow> string" where
  "upper s = map upper_char s"

definition rstrip :: "string \<Rightarrow> string \<Rightarrow> string" where
  "rstrip chars s = rev (dropWhile (\<lambda>c. c \<in> set chars) (rev s))"

definition lstrip :: "string \<Rightarrow> string \<Rightarrow> string" where
  "lstrip chars s = dropWhile (\<lambda>c. c \<in> set chars) s"

fun str_join :: "string \<Rightarrow> string list \<Rightarrow> string" where
  "str_join sep [] = []"
| "str_join sep [x] = x"
| "str_join sep (x # y # ys) = x @ sep @ str_join sep (y # ys)"

fun find_at :: "string \<Rightarrow> string \<Rightarrow> nat \<Rightarrow> int" where
  "find_at sub [] i = (if sub = [] then int i else - 1)"
| "find_at sub (c # cs) i =
     (if take (length sub) (c # cs) = sub then int i else find_at sub cs (Suc i))"

definition str_find :: "string \<Rightarrow> string \<Rightarrow> nat \<Rightarrow> int" where
  "str_find s sub start = (if start > length s then - 1 else find_at sub (drop start s) start)"

text \<open>\<open>re.findall\<close> for a pattern that is an alternation of literal, non-empty strings:
  at each position the first alternative that matches is taken and the scan continues after
  it; where none matches the scan moves one character on.\<close>

function re_findall :: "string list \<Rightarrow> string \<Rightarrow> string list" where
  "re_findall alts [] = []"
| "re_findall alts (c # cs) =
     (case find (\<lambda>a. a \<noteq> [] \<and> take (length a) (c # cs) = a) alts of
        Some a \<Rightarrow> a # re_findall alts (drop (length a) (c # cs))
      | None \<Rightarrow> re_findall alts cs)"
  by pat_completeness auto
termination
  by (relation "measure (\<lambda>(alts, s). length s)") (auto simp: find_Some_iff)

section \<open>Auction cleaning and validation (data_cleaning.py)\<close>

definition NORMALIZE_BID :: "(string \<times> string) list" where
  "NORMALIZE_BID = [(''PASS'', ''P''), (''AP'', ''P P P''), (''DBL'', ''X''), (''REDBL'', ''R''),
                    (''XX'', ''R''), (''PAS'', ''P''), (''S3'', ''3S''), (''XXX'', ''X R'')]"

text \<open>\<open>VALID_BIDS\<close> is a set in the source.  The alternation searched in a
  concatenated bid is \<open>XX\<close>, \<open>PASS\<close> and then the valid bids other than \<open>P\<close>; these
  remaining alternatives are two distinct single letters and two-character contract bids
  starting with a digit, so at most one of them matches at any position and the order in which the set is
  listed does not change the matches.\<close>

definition VALID_BIDS :: "string list" where
  "VALID_BIDS = [''P'', ''R'', ''X''] @ ORDERED_CONTRACT_BIDS"

definition clean_bid :: "string \<Rightarrow> string list" where
  "clean_bid bid0 =
     (let bid = lstrip ''=0='' (rstrip ''!'' (upper bid0)) in
      if bid \<in> set VALID_BIDS then [bid]
      else (case map_of NORMALIZE_BID bid of
              Some normalized_bid \<Rightarrow> split_on CHR '' '' normalized_bid
            | None \<Rightarrow>
                map (\<lambda>b. case map_of NORMALIZE_BID b of Some n \<Rightarrow> n | None \<Rightarrow> b)
                    (re_findall ([''XX'', ''PASS''] @ removeAll ''P'' VALID_BIDS) bid)))"

definition get_cleaned_bids :: "string \<Rightarrow> string list" where
  "get_cleaned_bids auction = concat (map clean_bid (split_on CHR '' '' auction))"

fun index_of :: "'a \<Rightarrow> 'a list \<Rightarrow> nat option" where
  "index_of x [] = None"
| "index_of x (y # ys) = (if x = y then Some 0 else map_option Suc (index_of x ys))"

text \<open>The loop of \<open>validate_auction\<close> that separates the contract bids from the runs
  of other bids between them; its state is \<open>contract_bids\<close>, \<open>non_contract_bids\<close> and
  \<open>number_of_contract_bids\<close>.\<close>

definition separate_step ::
  "string list \<times> string list list \<times> nat \<Rightarrow> string \<Rightarrow> string list \<times> string list list \<times> nat" where
  "separate_step st bid =
     (case st of (contract_bids, non_contract_bids, number_of_contract_bids) \<Rightarrow>
        if bid \<notin> set ORDERED_CONTRACT_BIDS
        then (contract_bids,
              non_contract_bids[number_of_contract_bids :=
                 (non_contract_bids ! number_of_contract_bids) @ [bid]],
              number_of_contract_bids)
        else (contract_bids @ [bid], non_contract_bids @ [[]], number_of_contract_bids + 1))"

text \<open>The two checking loops: contract bids strictly increasing, then doubles and
  redoubles consistent within each run (\<open>contract_bid_made\<close> is the index of the run, zero
  before the first contract bid).\<close>

fun check_increasing :: "string list \<Rightarrow> int \<Rightarrow> exn + unit" where
  "check_increasing [] current_bid_index = Inr ()"
| "check_increasing (bid # bids) current_bid_index =
     (case index_of bid ORDERED_CONTRACT_BIDS of
        None \<Rightarrow> Inl ValueError
      | Some i \<Rightarrow> if int i \<le> current_bid_index then Inl (AuctionError ContractBidError)
                  else check_increasing bids (int i))"

fun check_sequence :: "string list \<Rightarrow> nat \<Rightarrow> nat \<Rightarrow> bool \<Rightarrow> bool \<Rightarrow> exn + unit" where
  "check_sequence [] pos contract_bid_made doubled redoubled = Inr ()"
| "check_sequence (bid # bids) pos contract_bid_made doubled redoubled =
     (if bid = ''X'' then
        (if doubled \<or> redoubled \<or> pos mod 2 \<noteq> 0 \<or> contract_bid_made = 0
         then Inl (AuctionError DoubleBidError)
         else check_sequence bids (pos + 1) contract_bid_made True redoubled)
      else if bid = ''R'' then
        (if \<not> doubled \<or> redoubled \<or> pos mod 2 = 0 \<or> contract_bid_made = 0
         then Inl (AuctionError RedoubleBidError)
         else check_sequence bids (pos + 1) contract_bid_made doubled True)
      else check_sequence bids (pos + 1) contract_bid_made doubled redoubled)"

fun check_doubles :: "string list list \<Rightarrow> nat \<Rightarrow> exn + unit" where
  "check_doubles [] contract_bid_made = Inr ()"
| "check_doubles (bid_sequence # rest) contract_bid_made =
     (case check_sequence bid_sequence 0 contract_bid_made False False of
        Inl e \<Rightarrow> Inl e
      | Inr _ \<Rightarrow> check_doubles rest (contract_bid_made + 1))"

definition validate_auction :: "string \<Rightarrow> exn + string" where
  "validate_auction auction =
     (if auction = [] then Inl (AuctionError MissingAuctionError)
      else
        (let cleaned_bids = get_cleaned_bids auction;
             cleaned_auction = str_join '' '' cleaned_bids
         in if str_find cleaned_auction ''P P P'' 1 \<noteq> int (length cleaned_auction) - 5
            then Inl (AuctionError PassError)
            else
              (case foldl separate_step ([], [[]], 0) cleaned_bids of
                 (contract_bids, non_contract_bids, number_of_contract_bids) \<Rightarrow>
                   (case check_increasing contract_bids (- 1) of
                      Inl e \<Rightarrow> Inl e
                    | Inr _ \<Rightarrow>
                       (case check_doubles non_contract_bids 0 of
                          Inl e \<Rightarrow> Inl e
                        | Inr _ \<Rightarrow> Inr cleaned_auction)))))"

text \<open>Three consecutive passes starting at token position \<open>j\<close>, and the condition
  on the token sequence: at least four tokens, the last three are passes, and no three
  consecutive passes start at a position from 1 up to the terminal one.\<close>

definition three_passes_at :: "string list \<Rightarrow> nat \<Rightarrow> bool" where
  "three_passes_at toks j = (take 3 (drop j toks) = [''P'', ''P'', ''P''])"

definition terminal_passes_only :: "string list \<Rightarrow> bool" where
  "terminal_passes_only toks =
     (4 \<le> length toks \<and> three_passes_at toks (length toks - 3) \<and>
      (\<forall>j \<in> {1 ..< length toks - 3}. \<not> three_passes_at toks j))"

text \<open>Auxiliary recursive forms of "the first occurrence of \<open>P P P\<close> is the last five
  characters" on strings and of "the first three consecutive passes are the last three
  tokens" on token lists.\<close>

fun first_is_last :: "string \<Rightarrow> bool" where
  "first_is_last [] = False"
| "first_is_last (c # cs) =
     (if take 5 (c # cs) = ''P P P'' then length (c # cs) = 5 else first_is_last cs)"

fun tok_first_is_last :: "string list \<Rightarrow> bool" where
  "tok_first_is_last [] = False"
| "tok_first_is_last (t # ts) =
     (if t = ''P'' \<and> take 2 ts = [''P'', ''P''] then ts = [''P'', ''P'']
      else tok_first_is_last ts)"

section \<open>Deal validation (data_cleaning.py)\<close>

type_synonym deal_state = "string list list \<times> string list list"

text \<open>The state of the dealing loops is the remaining \<open>deck\<close> (one rank list per suit)
  and \<open>player_hands\<close>.  \<open>deck[suit_pos]\<close> raises \<open>IndexError\<close> beyond the fourth suit
  (outside the \<open>try\<close>), \<open>remove\<close> of an absent rank is turned into \<open>CardError\<close>.\<close>

definition deal_card :: "deal_state \<Rightarrow> nat \<Rightarrow> nat \<Rightarrow> char \<Rightarrow> exn + deal_state" where
  "deal_card st suit_pos seat card_c =
     (case st of (deck, player_hands) \<Rightarrow>
        if suit_pos \<ge> length deck then Inl IndexError
        else if [card_c] \<notin> set (deck ! suit_pos) then Inl (BoardError CardError)
        else if seat \<ge> length player_hands \<or> suit_pos \<ge> length SUITS then Inl IndexError
        else Inr (deck[suit_pos := remove1 [card_c] (deck ! suit_pos)],
                  player_hands[seat := (player_hands ! seat) @ [(SUITS ! suit_pos) @ [card_c]]]))"

fun deal_suit :: "deal_state \<Rightarrow> nat \<Rightarrow> nat \<Rightarrow> string \<Rightarrow> exn + deal_state" where
  "deal_suit st suit_pos seat [] = Inr st"
| "deal_suit st suit_pos seat (card_c # cards) =
     (case deal_card st suit_pos seat card_c of
        Inl e \<Rightarrow> Inl e
      | Inr st' \<Rightarrow> deal_suit st' suit_pos seat cards)"

fun deal_suits :: "deal_state \<Rightarrow> nat \<Rightarrow> nat \<Rightarrow> string list \<Rightarrow> exn + deal_state" where
  "deal_suits st suit_pos seat [] = Inr st"
| "deal_suits st suit_pos seat (suit # suits) =
     (case deal_suit st suit_pos seat suit of
        Inl e \<Rightarrow> Inl e
      | Inr st' \<Rightarrow> deal_suits st' (suit_pos + 1) seat suits)"

fun deal_hands :: "deal_state \<Rightarrow> nat \<Rightarrow> nat \<Rightarrow> string list \<Rightarrow> exn + deal_state" where
  "deal_hands st player_pos player_offset [] = Inr st"
| "deal_hands st player_pos player_offset (hand # hands) =
     (let suits = split_on CHR ''.'' hand in
      if sum_list (map length suits) \<noteq> 13 then Inl (BoardError UnbalancedDealError)
      else (case deal_suits st 0 ((player_pos + player_offset) mod 4) suits of
              Inl e \<Rightarrow> Inl e
            | Inr st' \<Rightarrow> deal_hands st' (player_pos + 1) player_offset hands))"

definition validate_deal :: "string \<Rightarrow> exn + string list list" where
  "validate_deal deal =
     (case deal of
        [] \<Rightarrow> Inl (BoardError MissingDealError)
      | c # _ \<Rightarrow>
         (case index_of [c] ORDER of
            None \<Rightarrow> Inl ValueError
          | Some player_offset \<Rightarrow>
             (case deal_hands (replicate 4 RANKS, replicate 4 []) 0 player_offset
                     (split_on CHR '' '' (drop 2 deal)) of
                Inl e \<Rightarrow> Inl e
              | Inr (deck, player_hands) \<Rightarrow> Inr player_hands)))"

text \<open>The 52 cards, suit letter followed by rank, for the four card suits.\<close>

definition full_deck :: "string list" where
  "full_deck = concat (map (\<lambda>suit. map (\<lambda>rank. suit @ rank) RANKS) (take 4 SUITS))"


text \<open>Quantities followed through the dealing loops: the cards still in the deck, the
  multiset of all cards in hands or deck, and the length of a seat's hand.\<close>

definition cards_of :: "string list \<Rightarrow> string list list \<Rightarrow> string list" where
  "cards_of suits deck = concat (map (\<lambda>(suit, ranks). map (\<lambda>rank. suit @ rank) ranks) (zip suits deck))"

definition deal_inv :: "deal_state \<Rightarrow> bool" where
  "deal_inv st = (case st of (deck, hands) \<Rightarrow> length deck = 4 \<and> length hands = 4)"

definition dealt :: "deal_state \<Rightarrow> string multiset" where
  "dealt st = (case st of (deck, hands) \<Rightarrow> mset (concat hands) + mset (cards_of SUITS deck))"

definition hand_len :: "deal_state \<Rightarrow> nat \<Rightarrow> nat" where
  "hand_len st seat = length (snd st ! seat)"

section \<open>Play validation (data_cleaning.py)\<close>

text \<open>List objects live in a store, because \<open>validate_play\<close> works on lists that the
  caller can still reach.  An address is an index into the store; an object is a list of
  strings (a hand) or a list of addresses (the list of hands).  Allocation appends.\<close>

datatype obj = StrList "string list" | RefList "nat list"

type_synonym heap = "obj list"

definition alloc :: "heap \<Rightarrow> obj \<Rightarrow> nat \<times> heap" where
  "alloc h ob = (length h, h @ [ob])"

text \<open>\<open>copy.deepcopy\<close> of a list of lists of strings: every inner list is copied into a
  new object (once per object: the memo keeps the aliasing of the original), then the outer
  list is allocated.  Strings are immutable and shared.  \<open>src\<close> is the store at the time of
  the call.\<close>

fun copy_inner :: "heap \<Rightarrow> heap \<Rightarrow> (nat \<times> nat) list \<Rightarrow> nat list \<Rightarrow> exn + (nat list \<times> heap)" where
  "copy_inner src h memo [] = Inr ([], h)"
| "copy_inner src h memo (r # rs) =
     (case map_of memo r of
        Some a \<Rightarrow>
          (case copy_inner src h memo rs of
             Inl e \<Rightarrow> Inl e
           | Inr (as, h') \<Rightarrow> Inr (a # as, h'))
      | None \<Rightarrow>
          if r < length src then
            (case src ! r of
               StrList xs \<Rightarrow>
                 (case alloc h (StrList xs) of (a, h1) \<Rightarrow>
                    (case copy_inner src h1 ((r, a) # memo) rs of
                       Inl e \<Rightarrow> Inl e
                     | Inr (as, h') \<Rightarrow> Inr (a # as, h')))
             | RefList _ \<Rightarrow> Inl TypeError)
          else Inl TypeError)"

definition deepcopy :: "heap \<Rightarrow> nat \<Rightarrow> exn + (nat \<times> heap)" where
  "deepcopy h ref =
     (if ref < length h then
        (case h ! ref of
           RefList rs \<Rightarrow>
             (case copy_inner h h [] rs of
                Inl e \<Rightarrow> Inl e
              | Inr (as, h1) \<Rightarrow> Inr (alloc h1 (RefList as)))
         | StrList _ \<Rightarrow> Inl TypeError)
      else Inl TypeError)"

text \<open>Reading the value of a list of hands, and \<open>hands[k].remove(card)\<close> on the
  store (\<open>ValueError\<close> when the card is absent).\<close>

fun read_inner :: "heap \<Rightarrow> nat list \<Rightarrow> exn + string list list" where
  "read_inner h [] = Inr []"
| "read_inner h (r # rs) =
     (if r < length h then
        (case h ! r of
           StrList xs \<Rightarrow>
             (case read_inner h rs of Inl e \<Rightarrow> Inl e | Inr xss \<Rightarrow> Inr (xs # xss))
         | RefList _ \<Rightarrow> Inl TypeError)
      else Inl TypeError)"

definition read_hands :: "heap \<Rightarrow> nat \<Rightarrow> exn + string list list" where
  "read_hands h ref =
     (if ref < length h then
        (case h ! ref of RefList rs \<Rightarrow> read_inner h rs | StrList _ \<Rightarrow> Inl TypeError)
      else Inl TypeError)"

definition remove_from_hand :: "heap \<Rightarrow> nat \<Rightarrow> nat \<Rightarrow> string \<Rightarrow> exn + heap" where
  "remove_from_hand h ref k crd =
     (if ref < length h then
        (case h ! ref of
           RefList rs \<Rightarrow>
             if k < length rs then
               (if rs ! k < length h then
                  (case h ! (rs ! k) of
                     StrList xs \<Rightarrow>
                       if crd \<in> set xs then Inr (h[rs ! k := StrList (remove1 crd xs)])
                       else Inl ValueError
                   | RefList _ \<Rightarrow> Inl TypeError)
                else Inl TypeError)
             else Inl IndexError
         | StrList _ \<Rightarrow> Inl TypeError)
      else Inl TypeError)"

text \<open>\<open>determine_trick_winner\<close>: \<open>card[0]\<close> and \<open>card[1]\<close> raise \<open>IndexError\<close> on a
  short string and \<open>RANK_TO_VALUE[...]\<close> raises \<open>KeyError\<close>; the rank is looked up only
  when the suit test before it succeeds.\<close>

definition RANK_TO_VALUE :: "(string \<times> int) list" where
  "RANK_TO_VALUE = [(''T'', 10), (''J'', 11), (''Q'', 12), (''K'', 13), (''A'', 14)]
                   @ map (\<lambda>i. (str_digit i, int i)) [2..<10]"

definition char_at :: "string \<Rightarrow> nat \<Rightarrow> exn + string" where
  "char_at s i = (if i < length s then Inr [s ! i] else Inl IndexError)"

definition rank_value :: "string \<Rightarrow> exn + int" where
  "rank_value crd =
     (case char_at crd 1 of
        Inl e \<Rightarrow> Inl e
      | Inr r \<Rightarrow> (case map_of RANK_TO_VALUE r of None \<Rightarrow> Inl KeyError | Some v \<Rightarrow> Inr v))"

text \<open>The loop state is \<open>(highest_trump, highest_led, winning_player)\<close>.\<close>

fun winner_loop :: "string \<Rightarrow> string \<Rightarrow> int \<Rightarrow> int \<times> int \<times> int \<Rightarrow> nat \<Rightarrow> string list \<Rightarrow> exn + int" where
  "winner_loop trump led_suit lead st pos [] = (case st of (_, _, winning_player) \<Rightarrow> Inr winning_player)"
| "winner_loop trump led_suit lead st pos (crd # cards) =
     (case st of (highest_trump, highest_led, winning_player) \<Rightarrow>
       (case char_at crd 0 of
          Inl e \<Rightarrow> Inl e
        | Inr suit \<Rightarrow>
           (case (if suit = trump then map_sum id (\<lambda>v. v > highest_trump) (rank_value crd)
                  else Inr False) of
              Inl e \<Rightarrow> Inl e
            | Inr True \<Rightarrow>
               (case rank_value crd of
                  Inl e \<Rightarrow> Inl e
                | Inr v \<Rightarrow> winner_loop trump led_suit lead (v, highest_led, (lead + int pos) mod 4)
                             (pos + 1) cards)
            | Inr False \<Rightarrow>
               (case (if suit = led_suit \<and> highest_trump = - 1
                      then map_sum id (\<lambda>v. v > highest_led) (rank_value crd)
                      else Inr False) of
                  Inl e \<Rightarrow> Inl e
                | Inr True \<Rightarrow>
                   (case rank_value crd of
                      Inl e \<Rightarrow> Inl e
                    | Inr v \<Rightarrow> winner_loop trump led_suit lead
                                 (highest_trump, v, (lead + int pos) mod 4) (pos + 1) cards)
                | Inr False \<Rightarrow> winner_loop trump led_suit lead st (pos + 1) cards))))"

definition determine_trick_winner :: "string list \<Rightarrow> string \<Rightarrow> int \<Rightarrow> exn + int" where
  "determine_trick_winner trick trump lead =
     (case trick of
        [] \<Rightarrow> Inl IndexError
      | first # _ \<Rightarrow>
         (case char_at first 0 of
            Inl e \<Rightarrow> Inl e
          | Inr led_suit \<Rightarrow> winner_loop trump led_suit lead (- 1, - 1, - 1) 0 trick))"

text \<open>\<open>reneged\<close>: \<open>suits_of\<close> is \<open>set(card[0] for card in hand)\<close>, built only when
  the card played is not of the led suit.\<close>

fun suits_of :: "string list \<Rightarrow> exn + string list" where
  "suits_of [] = Inr []"
| "suits_of (crd # cards) =
     (case char_at crd 0 of
        Inl e \<Rightarrow> Inl e
      | Inr s \<Rightarrow> (case suits_of cards of Inl e \<Rightarrow> Inl e | Inr ss \<Rightarrow> Inr (s # ss)))"

fun reneged_loop :: "string \<Rightarrow> string list list \<Rightarrow> int \<Rightarrow> nat \<Rightarrow> string list \<Rightarrow> exn + bool" where
  "reneged_loop led_suit hands lead pos [] = Inr False"
| "reneged_loop led_suit hands lead pos (crd # cards) =
     (case char_at crd 0 of
        Inl e \<Rightarrow> Inl e
      | Inr suit \<Rightarrow>
         if suit \<noteq> led_suit then
           (let k = nat ((lead + int pos) mod 4) in
            if k < length hands then
              (case suits_of (hands ! k) of
                 Inl e \<Rightarrow> Inl e
               | Inr ss \<Rightarrow> if led_suit \<in> set ss then Inr True
                           else reneged_loop led_suit hands lead (pos + 1) cards)
            else Inl IndexError)
         else reneged_loop led_suit hands lead (pos + 1) cards)"

definition reneged :: "string list \<Rightarrow> string list list \<Rightarrow> int \<Rightarrow> exn + bool" where
  "reneged trick hands lead =
     (case trick of
        [] \<Rightarrow> Inr False
      | first # rest \<Rightarrow>
         (case char_at first 0 of
            Inl e \<Rightarrow> Inl e
          | Inr led_suit \<Rightarrow> reneged_loop led_suit hands lead 1 rest))"

fun dashes_loop :: "nat \<Rightarrow> nat \<Rightarrow> string list \<Rightarrow> exn + nat" where
  "dashes_loop num_dashes pos [] = Inr num_dashes"
| "dashes_loop num_dashes pos (crd # cards) =
     (if crd = ''-'' then
        (if pos = 0 then Inl (PlaySequenceError FirstCardIsDashError)
         else dashes_loop (num_dashes + 1) (pos + 1) cards)
      else
        (if num_dashes \<noteq> 0 then Inl (PlaySequenceError CardAfterDashError)
         else dashes_loop num_dashes (pos + 1) cards))"

definition validate_dashes :: "string list \<Rightarrow> exn + nat" where
  "validate_dashes ordered_trick = dashes_loop 0 0 ordered_trick"

text \<open>The loop \<open>for play in plays: if play not in valid_plays: plays.remove(play)\<close>
  mutates the list it iterates over: the iterator keeps an index, \<open>remove\<close> deletes the
  first equal element and shifts the rest, and the loop ends when the index reaches the
  current length.\<close>

function filter_plays :: "string list \<Rightarrow> string list \<Rightarrow> nat \<Rightarrow> string list" where
  "filter_plays valid_plays plays i =
     (if i < length plays then
        (if plays ! i \<notin> set valid_plays
         then filter_plays valid_plays (remove1 (plays ! i) plays) (i + 1)
         else filter_plays valid_plays plays (i + 1))
      else plays)"
  by pat_completeness auto
termination
  by (relation "measure (\<lambda>(v, plays, i). length plays - i)") (auto simp: length_remove1)

declare filter_plays.simps [simp del]


text \<open>The local variables of the trick loop of \<open>validate_play\<close>.\<close>

record play_state =
  ordered_play_sequence :: string
  play_order_sequence :: "int list"
  tricks_played :: int
  tricks_won_by_declarer :: int
  trick_leader :: int
  trick :: "string list"
  num_dashes :: nat

text \<open>The end of a trick: the four entries are read from \<open>trick\<close> starting at the
  actual trick leader (\<open>trick_pos\<close> runs over
  \<open>range(trick_leader - lead_player, trick_leader - lead_player + 4)\<close>), dashes are
  validated, revokes are looked for on the cards before the dashes, and a full trick gets a
  winner.\<close>

fun order_trick :: "play_state \<Rightarrow> int \<Rightarrow> string list \<Rightarrow> int list \<Rightarrow> exn + (play_state \<times> string list)" where
  "order_trick st lead_player ordered_trick [] = Inr (st, ordered_trick)"
| "order_trick st lead_player ordered_trick (trick_pos # rest) =
     (let i = nat (trick_pos mod 4) in
      if i < length (trick st) then
        (let c = trick st ! i;
             st' = (if c \<noteq> ''-''
                    then st\<lparr>ordered_play_sequence := ordered_play_sequence st @ c,
                            play_order_sequence :=
                              play_order_sequence st @ [(lead_player + trick_pos) mod 4]\<rparr>
                    else st)
         in order_trick st' lead_player (ordered_trick @ [c]) rest)
      else Inl IndexError)"

definition end_of_trick ::
  "string list list \<Rightarrow> string \<Rightarrow> int \<Rightarrow> int \<Rightarrow> play_state \<Rightarrow> exn + play_state" where
  "end_of_trick hands trump lead_player declarer st =
     (let start = trick_leader st - lead_player in
      case order_trick st lead_player [] [start, start + 1, start + 2, start + 3] of
        Inl e \<Rightarrow> Inl e
      | Inr (st1, ordered_trick) \<Rightarrow>
         (case validate_dashes ordered_trick of
            Inl e \<Rightarrow> Inl e
          | Inr nd \<Rightarrow>
             (case reneged (take (4 - nd) ordered_trick) hands (trick_leader st1) of
                Inl e \<Rightarrow> Inl e
              | Inr True \<Rightarrow> Inl (PlaySequenceError RenegeError)
              | Inr False \<Rightarrow>
                 if nd = 0 then
                   (case determine_trick_winner ordered_trick trump (trick_leader st1) of
                      Inl e \<Rightarrow> Inl e
                    | Inr w \<Rightarrow>
                       Inr (st1\<lparr>num_dashes := nd, trick_leader := w,
                               tricks_won_by_declarer :=
                                 (if w \<in> set [declarer, (declarer + 2) mod 4]
                                  then tricks_won_by_declarer st1 + 1
                                  else tricks_won_by_declarer st1),
                               tricks_played := tricks_played st1 + 1,
                               trick := []\<rparr>))
                 else Inr (st1\<lparr>num_dashes := nd, trick := []\<rparr>))))"

text \<open>The trick loop on the store: \<open>hands\<close> is the address of the (copied) list of
  hands; only \<open>ValueError\<close> from \<open>remove\<close> becomes \<open>PlayError\<close>.\<close>

fun play_loop ::
  "heap \<Rightarrow> nat \<Rightarrow> string \<Rightarrow> int \<Rightarrow> int \<Rightarrow> play_state \<Rightarrow> nat \<Rightarrow> string list
     \<Rightarrow> (exn + play_state) \<times> heap" where
  "play_loop h hands trump lead_player declarer st pos [] = (Inr st, h)"
| "play_loop h hands trump lead_player declarer st pos (crd # cards) =
     (if num_dashes st \<noteq> 0 then (Inl (PlaySequenceError MultipleClaimError), h)
      else
        (case (if crd \<noteq> ''-''
               then remove_from_hand h hands (nat ((lead_player + int pos) mod 4)) crd
               else Inr h) of
           Inl e \<Rightarrow> (Inl (if e = ValueError then PlaySequenceError PlayError else e), h)
         | Inr h1 \<Rightarrow>
            (let st1 = st\<lparr>trick := trick st @ [crd]\<rparr> in
             if pos mod 4 = 3 then
               (case read_hands h1 hands of
                  Inl e \<Rightarrow> (Inl e, h1)
                | Inr hs \<Rightarrow>
                   (case end_of_trick hs trump lead_player declarer st1 of
                      Inl e \<Rightarrow> (Inl e, h1)
                    | Inr st2 \<Rightarrow>
                       play_loop h1 hands trump lead_player declarer st2 (pos + 1) cards))
             else play_loop h1 hands trump lead_player declarer st1 (pos + 1) cards)))"

text \<open>\<open>validate_play\<close> takes the store and the address of the caller's \<open>hands\<close> and
  returns the result together with the store after the call.\<close>

definition validate_play ::
  "heap \<Rightarrow> string \<Rightarrow> string \<Rightarrow> nat \<Rightarrow> string
     \<Rightarrow> (exn + (string \<times> int list \<times> int \<times> int)) \<times> heap" where
  "validate_play h play_sequence lead hands trump =
     (if play_sequence = [] \<or> lead = [] \<or> trump = []
      then (Inl (PlaySequenceError MissingPlaySequenceInfoError), h)
      else
        (case deepcopy h hands of
           Inl e \<Rightarrow> (Inl e, h)
         | Inr (hands_copy, h1) \<Rightarrow>
            (let RECOGNIZABLE_BIDS = [(''HTHQ'', ''HT HQ''), (''--'', ''-'')];
                 play_sequence1 = foldl (\<lambda>ps (bid, replacement). str_replace ps bid replacement)
                                        play_sequence RECOGNIZABLE_BIDS;
                 plays0 = split_on CHR '' '' play_sequence1
             in case read_hands h1 hands_copy of
                  Inl e \<Rightarrow> (Inl e, h1)
                | Inr hs \<Rightarrow>
                   (let valid_plays = [''-''] @ concat hs;
                        plays = filter_plays valid_plays plays0 0
                    in if length plays mod 4 \<noteq> 0
                       then (Inl (PlaySequenceError UnbalancedPlaySequenceError), h1)
                       else
                         (case index_of lead ORDER of
                            None \<Rightarrow> (Inl ValueError, h1)
                          | Some lp \<Rightarrow>
                             (let lead_player = int lp;
                                  declarer = (lead_player - 1) mod 4;
                                  st0 = \<lparr>ordered_play_sequence = [], play_order_sequence = [],
                                         tricks_played = 0, tricks_won_by_declarer = 0,
                                         trick_leader = lead_player, trick = [], num_dashes = 0\<rparr>
                              in case play_loop h1 hands_copy trump lead_player declarer st0 0 plays of
                                   (Inl e, h2) \<Rightarrow> (Inl e, h2)
                                 | (Inr st, h2) \<Rightarrow>
                                     (Inr (ordered_play_sequence st, play_order_sequence st,
                                           tricks_played st, tricks_won_by_declarer st), h2)))))))"

text \<open>The list of hands at address \<open>c\<close> and all its hands were allocated at or after
  \<open>n0\<close>.\<close>

definition fresh_hands :: "nat \<Rightarrow> heap \<Rightarrow> nat \<Rightarrow> bool" where
  "fresh_hands n0 h c \<longleftrightarrow>
     c < length h \<and> n0 \<le> c \<and> (\<exists>as. h ! c = RefList as \<and> (\<forall>a \<in> set as. n0 \<le> a \<and> a \<noteq> c))"

section \<open>Board assembly (data_cleaning.py)\<close>

text \<open>\<open>ensure_non_contradiction\<close>, \<open>normalize_contract\<close> (with Python's slices
  \<open>contract[-2:]\<close>, \<open>contract[:-2]\<close>, \<open>contract[1:3]\<close>) and the lookups derived from a
  cleaned auction.\<close>

definition ensure_non_contradiction :: "string \<Rightarrow> string \<Rightarrow> exn + string" where
  "ensure_non_contradiction value1 value2 =
     (if value2 \<noteq> [] then
        (if value1 \<noteq> [] \<and> value1 \<noteq> value2 then Inl ContradictionError else Inr value2)
      else Inr value1)"

definition normalize_contract :: "string \<Rightarrow> string" where
  "normalize_contract contract =
     (if upper contract = ''PASS'' then ''P''
      else
        (let contract1 = (if drop (length contract - 2) contract = ''XX''
                          then take (length contract - 2) contract @ ''R'' else contract);
             contract2 = (if take 2 (drop 1 contract1) = ''NT''
                          then take 2 contract1 @ drop 3 contract1 else contract1)
         in contract2))"

text \<open>The backwards scan of \<open>find_contract_from_auction\<close>; it stops at the first bid
  that is not a pass, double or redouble.\<close>

fun contract_loop :: "string \<Rightarrow> string list \<Rightarrow> string \<times> string" where
  "contract_loop double [] = ([], double)"
| "contract_loop double (bid # bids) =
     (if bid = ''R'' then contract_loop ''R'' bids
      else if bid = ''X'' then contract_loop (if double \<noteq> ''R'' then ''X'' else double) bids
      else if bid \<noteq> ''P'' then (bid, double)
      else contract_loop double bids)"

definition find_contract_from_auction :: "string \<Rightarrow> string" where
  "find_contract_from_auction auction =
     (if auction = [] then []
      else (case contract_loop [] (rev (split_on CHR '' '' auction)) of
              (contract, double) \<Rightarrow> if contract = [] then ''P'' else contract @ double))"

text \<open>Subscripting a list with an integer: an index below zero is taken from the end of
  the list, and an index outside both ranges raises \<open>IndexError\<close>.\<close>

definition py_nth :: "'a list \<Rightarrow> int \<Rightarrow> exn + 'a" where
  "py_nth xs i =
     (if 0 \<le> i \<and> i < int (length xs) then Inr (xs ! nat i)
      else if i < 0 \<and> - int (length xs) \<le> i then Inr (xs ! nat (int (length xs) + i))
      else Inl IndexError)"

text \<open>The loop of \<open>find_declarer_from_auction\<close>; its state is
  \<open>suit_to_first_player_to_bid\<close> (per denomination the first bidder of each side, -1 when
  none), \<open>winning_bidder\<close> and \<open>winning_trump\<close>.\<close>

fun declarer_loop ::
  "(string \<rightharpoonup> int list) \<times> int \<times> string \<Rightarrow> int \<Rightarrow> string list
     \<Rightarrow> exn + ((string \<rightharpoonup> int list) \<times> int \<times> string)" where
  "declarer_loop st current_bidder [] = Inr st"
| "declarer_loop st current_bidder (bid # bids) =
     (case st of (suit_to_first_player_to_bid, winning_bidder, winning_trump) \<Rightarrow>
        if bid \<in> set ORDERED_CONTRACT_BIDS then
          (case suit_to_first_player_to_bid [bid ! 1] of
             None \<Rightarrow> Inl KeyError
           | Some firsts \<Rightarrow>
              (case py_nth firsts (current_bidder mod 2) of
                 Inl e \<Rightarrow> Inl e
               | Inr f \<Rightarrow>
                  declarer_loop
                    ((if f = - 1
                      then suit_to_first_player_to_bid
                             ([bid ! 1] \<mapsto> firsts[nat (current_bidder mod 2) := current_bidder])
                      else suit_to_first_player_to_bid),
                     current_bidder, [bid ! 1])
                    ((current_bidder + 1) mod 4) bids))
        else declarer_loop st ((current_bidder + 1) mod 4) bids)"

definition find_declarer_from_auction :: "string \<Rightarrow> string \<Rightarrow> exn + string" where
  "find_declarer_from_auction auction bidstart =
     (if auction = [] \<or> bidstart = [] then Inr []
      else
        (case index_of bidstart ORDER of
           None \<Rightarrow> Inl ValueError
         | Some b \<Rightarrow>
            (case declarer_loop
                    ([''N'' \<mapsto> [- 1, - 1], ''S'' \<mapsto> [- 1, - 1], ''H'' \<mapsto> [- 1, - 1],
                      ''D'' \<mapsto> [- 1, - 1], ''C'' \<mapsto> [- 1, - 1]], - 1, [])
                    (int b) (split_on CHR '' '' auction) of
               Inl e \<Rightarrow> Inl e
             | Inr (suit_to_first_player_to_bid, winning_bidder, winning_trump) \<Rightarrow>
                if winning_trump = [] then Inr []
                else
                  (case suit_to_first_player_to_bid winning_trump of
                     None \<Rightarrow> Inl KeyError
                   | Some firsts \<Rightarrow>
                      (case py_nth firsts (winning_bidder mod 2) of
                         Inl e \<Rightarrow> Inl e
                       | Inr seat \<Rightarrow> py_nth ORDER seat)))))"

definition find_lead_from_declarer :: "string \<Rightarrow> exn + string" where
  "find_lead_from_declarer declarer =
     (if declarer = [] then Inr []
      else if declarer = ''P'' then Inr ''P''
      else (case index_of declarer ORDER of
              None \<Rightarrow> Inl ValueError
            | Some d \<Rightarrow> py_nth ORDER ((int d + 1) mod 4)))"

text \<open>\<open>compute_claim\<close>: the \<open>result\<close> column of the database holds integers, on which
  \<open>int(result)\<close> is the identity, so the result is an \<open>int\<close> here.\<close>

definition compute_claim :: "int \<Rightarrow> int \<Rightarrow> int \<Rightarrow> exn + int" where
  "compute_claim result number_of_tricks_played number_of_declarer_tricks =
     (if result < 0 \<or> result > 13 then Inr (- 1)
      else if result < number_of_declarer_tricks
              \<or> result - number_of_declarer_tricks > 13 - number_of_tricks_played
           then Inl (BoardError ClaimError)
      else Inr result)"

text \<open>\<open>compute_year\<close>.  \<open>re.match(r"^(\d{4})\.", date)\<close> needs four digits and a dot at
  the start of \<open>date\<close>.  \<open>re.match(r".*([1-2][0,9][0-2,5-9][0-9])", event)\<close> takes the last
  four characters of the first line that fit the four character classes (\<open>.*\<close> is greedy
  and does not cross a newline); the second and third class contain the comma.
  \<open>int(match.group(1))\<close> raises \<open>ValueError\<close> unless the group is made of digits.\<close>

definition is_digit :: "char \<Rightarrow> bool" where
  "is_digit c = (c \<in> set ''0123456789'')"

definition int_of_string :: "string \<Rightarrow> exn + int" where
  "int_of_string s =
     (if s \<noteq> [] \<and> list_all is_digit s
      then Inr (foldl (\<lambda>acc c. 10 * acc + (int (of_char c) - 48)) 0 s)
      else Inl ValueError)"

definition date_match :: "string \<Rightarrow> string option" where
  "date_match date =
     (if length date \<ge> 5 \<and> list_all is_digit (take 4 date) \<and> date ! 4 = CHR ''.''
      then Some (take 4 date) else None)"

definition year_group :: "string \<Rightarrow> bool" where
  "year_group g =
     (case g of
        [c1, c2, c3, c4] \<Rightarrow>
          c1 \<in> set ''12'' \<and> c2 \<in> set ''0,9'' \<and> c3 \<in> set ''012,56789'' \<and> is_digit c4
      | _ \<Rightarrow> False)"

fun event_match :: "string \<Rightarrow> string option" where
  "event_match [] = None"
| "event_match (c # cs) =
     (case (if c \<noteq> CHR 0x0A then event_match cs else None) of
        Some g \<Rightarrow> Some g
      | None \<Rightarrow> if year_group (take 4 (c # cs)) then Some (take 4 (c # cs)) else None)"

fun year_loop :: "string option list \<Rightarrow> exn + int" where
  "year_loop [] = Inr 0"
| "year_loop (m # ms) =
     (case m of
        None \<Rightarrow> year_loop ms
      | Some g \<Rightarrow>
         (case int_of_string g of
            Inl e \<Rightarrow> Inl e
          | Inr year \<Rightarrow> if year \<ge> 1955 \<and> year \<le> 2016 then Inr year else year_loop ms))"

definition compute_year :: "string \<Rightarrow> string \<Rightarrow> exn + int" where
  "compute_year event date = year_loop [date_match date, event_match event]"



text \<open>\<open>normalize_name\<close>.  A \<open>Counter\<close> is an association list from element to count
  in insertion order; \<open>&\<close>, \<open>-\<close> and \<open>elements()\<close> follow CPython.  The float fields
  \<open>mp\<close> and \<open>pp\<close> of \<open>WbfInfo\<close> are carried as the strings \<open>str(mp)\<close> and
  \<open>str(pp)\<close>.  \<open>max\<close> of no candidates raises \<open>ValueError\<close>.\<close>

type_synonym counter = "(string \<times> int) list"

definition counter_get :: "counter \<Rightarrow> string \<Rightarrow> int" where
  "counter_get c k = (case map_of c k of Some n \<Rightarrow> n | None \<Rightarrow> 0)"

fun dict_set :: "('k \<times> 'v) list \<Rightarrow> 'k \<Rightarrow> 'v \<Rightarrow> ('k \<times> 'v) list" where
  "dict_set [] k v = [(k, v)]"
| "dict_set ((k', v') # d) k v = (if k' = k then (k, v) # d else (k', v') # dict_set d k v)"

definition counter_incr :: "counter \<Rightarrow> string \<Rightarrow> counter" where
  "counter_incr c k = dict_set c k (counter_get c k + 1)"

definition Counter :: "string list \<Rightarrow> counter" where
  "Counter xs = foldl counter_incr [] xs"

definition counter_and :: "counter \<Rightarrow> counter \<Rightarrow> counter" where
  "counter_and a b =
     filter (\<lambda>(k, n). n > 0) (map (\<lambda>(k, n). (k, min n (counter_get b k))) a)"

definition counter_sub :: "counter \<Rightarrow> counter \<Rightarrow> counter" where
  "counter_sub a b =
     filter (\<lambda>(k, n). n > 0) (map (\<lambda>(k, n). (k, n - counter_get b k)) a)
     @ map (\<lambda>(k, n). (k, - n)) (filter (\<lambda>(k, n). k \<notin> set (map fst a) \<and> n < 0) b)"

definition elements :: "counter \<Rightarrow> string list" where
  "elements c = concat (map (\<lambda>(k, n). replicate (nat n) k) c)"

record wbf_info =
  mp :: string
  pp :: string
  wbf_names :: "string list"
  wbf_initials :: "string list"

definition startswith :: "string \<Rightarrow> string \<Rightarrow> bool" where
  "startswith s p = (take (length p) s = p)"

text \<open>The loop that matches the remaining roster names with the remaining initials; its
  state is \<open>(number_of_matched_initials, matched_names, matched_initials,
  available_initials)\<close>.\<close>

fun match_initials ::
  "int \<times> counter \<times> counter \<times> string list \<Rightarrow> string list
     \<Rightarrow> int \<times> counter \<times> counter \<times> string list" where
  "match_initials st [] = st"
| "match_initials st (name # names) =
     (case st of (number_of_matched_initials, matched_names, matched_initials, available_initials) \<Rightarrow>
        (case find (\<lambda>initial. startswith name initial) available_initials of
           None \<Rightarrow> match_initials st names
         | Some initial \<Rightarrow>
            match_initials (number_of_matched_initials + 1, counter_incr matched_names name,
                            counter_incr matched_initials initial,
                            remove1 initial available_initials) names))"

definition split_name :: "string \<Rightarrow> string list \<times> string list" where
  "split_name name =
     foldl (\<lambda>(initials, names) component.
              if length component = 2 \<and> component ! 1 = CHR ''.''
              then (initials @ [upper [component ! 0]], names)
              else (initials, names @ [upper component]))
           ([], []) (split_on CHR '' '' name)"

definition candidate_of :: "string list \<Rightarrow> string list \<Rightarrow> wbf_info \<Rightarrow> int \<times> int \<times> int \<times> int" where
  "candidate_of initials names info =
     (let matched_names = counter_and (Counter (wbf_names info)) (Counter names);
          matched_initials = counter_and (Counter (wbf_initials info)) (Counter initials);
          number_of_matched_names = int (length (elements matched_names));
          number_of_matched_initials = int (length (elements matched_initials));
          available_initials = elements (counter_sub (Counter initials) matched_initials)
      in case match_initials (number_of_matched_initials, matched_names, matched_initials,
                              available_initials)
                (elements (counter_sub (Counter (wbf_names info)) matched_names)) of
           (number_of_matched_initials', matched_names', matched_initials', _) \<Rightarrow>
             (number_of_matched_names, number_of_matched_initials',
              - int (length (elements (counter_sub (Counter (wbf_names info)) matched_names'))),
              - int (length (elements (counter_sub (Counter (wbf_initials info)) matched_initials')))))"

definition tuple_less :: "int \<times> int \<times> int \<times> int \<Rightarrow> int \<times> int \<times> int \<times> int \<Rightarrow> bool" where
  "tuple_less x y =
     (case (x, y) of ((a1, a2, a3, a4), (b1, b2, b3, b4)) \<Rightarrow>
        a1 < b1 \<or> (a1 = b1 \<and> (a2 < b2 \<or> (a2 = b2 \<and> (a3 < b3 \<or> (a3 = b3 \<and> a4 < b4))))))"

definition normalize_name :: "string \<Rightarrow> (string \<times> wbf_info) list \<Rightarrow> exn + string" where
  "normalize_name name wbf_data =
     (let name_to_wbf_name_components = foldl (\<lambda>d (k, v). dict_set d k v) [] wbf_data;
          (initials, names) = split_name name;
          candidates = foldl (\<lambda>d (wbf_name, info).
                                dict_set d (wbf_name @ '','' @ mp info @ '','' @ pp info)
                                         (candidate_of initials names info))
                             [] name_to_wbf_name_components;
          no_match = '',-1,-1''
      in case map snd candidates of
           [] \<Rightarrow> Inl ValueError
         | v # vs \<Rightarrow>
            (let best_match = foldl (\<lambda>m x. if tuple_less m x then x else m) v vs;
                 matching_names = map fst (filter (\<lambda>(k, c). c = best_match) candidates)
             in if fst best_match = 0 then Inr no_match
                else if length matching_names \<noteq> 1 then Inr no_match
                else Inr (matching_names ! 0)))"


text \<open>\<open>str(exc)\<close> of an exception is the docstring of its class.\<close>

definition str_auction_error :: "auction_error \<Rightarrow> string" where
  "str_auction_error e =
     (case e of
        MissingAuctionError \<Rightarrow> ''Missing auction.''
      | PassError \<Rightarrow> ''The contract was passed out in the middle of the auction, or the auction did not end with three passes.''
      | ContractBidError \<Rightarrow> ''Contract bid was made in a non-increasing fashion.''
      | DoubleBidError \<Rightarrow> ''A double bid was made where the contract was already doubled or redoubled, the bid was made by the side who bid the last contract, or there was no contract bid made yet.''
      | RedoubleBidError \<Rightarrow> ''A redouble bid was made where the contract was not doubled or already redoubled, the bid was made by the side who did not bid the last contract, or there was no contract bid made yet.'')"

definition str_play_sequence_error :: "play_sequence_error \<Rightarrow> string" where
  "str_play_sequence_error e =
     (case e of
        MissingPlaySequenceInfoError \<Rightarrow> ''Missing play_sequence, lead, or trump.''
      | FirstCardIsDashError \<Rightarrow> ''First card played to a trick is a dash.''
      | CardAfterDashError \<Rightarrow> ''A card is played to a trick after a dash.''
      | UnbalancedPlaySequenceError \<Rightarrow> ''The number of legal plays, augmented with dashes if necessary, is not divisible by 4.''
      | MultipleClaimError \<Rightarrow> ''Dashes appeared in more than one trick.''
      | PlayError \<Rightarrow> ''A card is played twice or the player never had it.''
      | RenegeError \<Rightarrow> ''A player reneged.'')"

text \<open>The cleaned board (the dictionary \<open>board\<close>, its keys prefixed with \<open>b_\<close>) and
  the input record (the columns of one row of the database, prefixed with \<open>r_\<close>).\<close>

record board =
  b_names :: "string list"
  b_deal :: string
  b_bidstart :: string
  b_auction :: string
  b_contract :: string
  b_declarer :: string
  b_lead :: string
  b_play :: string
  b_play_order :: "int list"
  b_claim :: int
  b_NS_vulnerable :: bool
  b_EW_vulnerable :: bool
  b_year :: int

record board_record =
  r_event :: string
  r_date :: string
  r_northname :: string
  r_eastname :: string
  r_southname :: string
  r_westname :: string
  r_deal :: string
  r_vulnerable :: string
  r_dealer :: string
  r_bidstart :: string
  r_auction :: string
  r_contract :: string
  r_declarer :: string
  r_lead :: string
  r_play :: string
  r_result :: int

fun normalize_names :: "string list \<Rightarrow> (string \<times> wbf_info) list \<Rightarrow> exn + string list" where
  "normalize_names [] wbf_data = Inr []"
| "normalize_names (name # rest) wbf_data =
     (case normalize_name name wbf_data of
        Inl e \<Rightarrow> Inl e
      | Inr n \<Rightarrow> (case normalize_names rest wbf_data of Inl e \<Rightarrow> Inl e | Inr ns \<Rightarrow> Inr (n # ns)))"

text \<open>\<open>player_hands\<close> is a list object of \<open>clean_board\<close>; it is put in a store of its own
  for the call of \<open>validate_play\<close>.\<close>

definition store_of_hands :: "string list list \<Rightarrow> heap \<times> nat" where
  "store_of_hands player_hands =
     (map StrList player_hands @ [RefList [0 ..< length player_hands]], length player_hands)"

text \<open>\<open>except ContradictionError: raise K()\<close>, \<open>except AuctionError\<close> and
  \<open>except PlaySequenceError\<close> catch one family only; every other exception goes on.\<close>

definition reraise :: "exn \<Rightarrow> board_error \<Rightarrow> exn" where
  "reraise e kind = (if e = ContradictionError then BoardError kind else e)"

definition clean_board_play ::
  "board_record \<Rightarrow> string list list \<Rightarrow> string
     \<Rightarrow> exn + (string \<times> int list \<times> int \<times> int \<times> string)" where
  "clean_board_play r player_hands board_contract =
     (if board_contract \<noteq> ''P'' then
        (case char_at board_contract 1 of
           Inl e \<Rightarrow> Inl e
         | Inr trump \<Rightarrow>
            (case store_of_hands player_hands of (h, hands) \<Rightarrow>
               (case fst (validate_play h (r_play r) (r_lead r) hands trump) of
                  Inl (PlaySequenceError exc) \<Rightarrow> Inr ([], [], - 1, - 1, str_play_sequence_error exc)
                | Inl e \<Rightarrow> Inl e
                | Inr (p, po, number_of_tricks_played, number_of_declarer_tricks) \<Rightarrow>
                    Inr (p, po, number_of_tricks_played, number_of_declarer_tricks, []))))
      else if r_play r \<noteq> [] then Inl (BoardError PassContradictionError)
      else Inr ([], [], - 1, - 1, []))"

definition bind :: "exn + 'a \<Rightarrow> ('a \<Rightarrow> exn + 'b) \<Rightarrow> exn + 'b" where
  "bind m f = (case m of Inl e \<Rightarrow> Inl e | Inr x \<Rightarrow> f x)"

definition catch_as :: "exn + 'a \<Rightarrow> board_error \<Rightarrow> exn + 'a" where
  "catch_as m kind = (case m of Inl e \<Rightarrow> Inl (reraise e kind) | Inr x \<Rightarrow> Inr x)"

definition clean_board_auction :: "board_record \<Rightarrow> string \<Rightarrow> exn + (string \<times> string)" where
  "clean_board_auction r board_bidstart =
     (if board_bidstart \<noteq> [] then
        (case validate_auction (r_auction r) of
           Inl (AuctionError exc) \<Rightarrow> Inr ([], str_auction_error exc)
         | Inl e \<Rightarrow> Inl e
         | Inr a \<Rightarrow> Inr (a, []))
      else Inr ([], []))"

definition clean_board_claim ::
  "board_record \<Rightarrow> string \<Rightarrow> string \<times> int list \<times> int \<times> int \<times> string \<Rightarrow> exn + int" where
  "clean_board_claim r board_contract p =
     (case p of (board_play, board_play_order, number_of_tricks_played,
                 number_of_declarer_tricks, play_error) \<Rightarrow>
        if play_error = [] \<and> length board_play \<noteq> 104 \<and> board_contract \<noteq> ''P''
        then compute_claim (r_result r) number_of_tricks_played number_of_declarer_tricks
        else Inr (- 1))"

definition clean_board ::
  "board_record \<Rightarrow> (string \<times> wbf_info) list \<Rightarrow> exn + (board \<times> string \<times> string)" where
  "clean_board r wbf_data =
     (if r_northname r = [] \<and> r_eastname r = [] \<and> r_southname r = [] \<and> r_westname r = []
      then Inl (BoardError MissingNamesError)
      else
      bind (normalize_names [r_northname r, r_eastname r, r_southname r, r_westname r] wbf_data)
        (\<lambda>board_names.
      bind (validate_deal (r_deal r)) (\<lambda>player_hands.
      let bidstart1 = (if r_bidstart r \<notin> set ORDER then [] else r_bidstart r);
          board_bidstart = (if bidstart1 \<noteq> [] then bidstart1 else r_dealer r)
      in
      bind (clean_board_auction r board_bidstart) (\<lambda>a.
      let board_auction = fst a; auction_error = snd a in
      bind (catch_as (ensure_non_contradiction (normalize_contract (r_contract r))
                        (find_contract_from_auction board_auction))
                     ContractContradictionError) (\<lambda>board_contract.
      let declarer1 = (if r_declarer r \<notin> set ORDER then [] else r_declarer r) in
      bind (catch_as (bind (find_declarer_from_auction board_auction board_bidstart)
                        (\<lambda>d. ensure_non_contradiction declarer1 (if d \<noteq> [] then d else ''P'')))
                     DeclarerContradictionError) (\<lambda>board_declarer.
      bind (catch_as (bind (find_lead_from_declarer board_declarer)
                        (\<lambda>l. ensure_non_contradiction (r_lead r) l))
                     LeadContradictionError) (\<lambda>board_lead.
      bind (clean_board_play r player_hands board_contract) (\<lambda>p.
      bind (clean_board_claim r board_contract p) (\<lambda>board_claim.
      let vulnerability = (case map_of [(''All]'', ''All''), (''NZ'', ''NS'')] (r_vulnerable r) of
                             Some v \<Rightarrow> v | None \<Rightarrow> r_vulnerable r)
      in
      bind (compute_year (r_event r) (r_date r)) (\<lambda>board_year.
        Inr (\<lparr>b_names = board_names, b_deal = r_deal r, b_bidstart = board_bidstart,
              b_auction = board_auction, b_contract = board_contract, b_declarer = board_declarer,
              b_lead = board_lead, b_play = fst p, b_play_order = fst (snd p),
              b_claim = board_claim,
              b_NS_vulnerable = (vulnerability = ''NS'' \<or> vulnerability = ''All''),
              b_EW_vulnerable = (vulnerability = ''EW'' \<or> vulnerability = ''All''),
              b_year = board_year\<rparr>,
             auction_error, snd (snd (snd (snd p))))))))))))))"


text \<open>The board and the roster of \<open>test_clean_board\<close> in the repository's tests.\<close>

definition example_roster :: "(string \<times> wbf_info) list" where
  "example_roster =
     [(''NORTH'', \<lparr>mp = ''1'', pp = ''1'', wbf_names = [''NORTH''], wbf_initials = []\<rparr>),
      (''EAST'', \<lparr>mp = ''2'', pp = ''2'', wbf_names = [''EAST''], wbf_initials = []\<rparr>),
      (''SOUTH'', \<lparr>mp = ''3'', pp = ''3'', wbf_names = [''SOUTH''], wbf_initials = []\<rparr>),
      (''WEST'', \<lparr>mp = ''4'', pp = ''4'', wbf_names = [''WEST''], wbf_initials = []\<rparr>)]"

definition example_record :: board_record where
  "example_record = \<lparr>r_event = ''2000 Bridge'', r_date = ''2000.??.??'', r_northname = ''North'',
     r_eastname = ''East'', r_southname = ''South'', r_westname = ''West'',
     r_deal = ''N:AK75.54.987653.A Q.AT983.42.JT753 642.KQJ7.AQJ.962 JT983.62.KT.KQ84'',
     r_vulnerable = ''All'', r_dealer = ''N'', r_bidstart = ''N'',
     r_auction = ''1D 1H X P P 2C 2D 3C 3D P P P'', r_contract = ''3D'', r_declarer = ''N'',
     r_lead = ''E'', r_play = ''SQ S2 S3 SK - - - S5'', r_result = 9\<rparr>"

section \<open>Verification\<close>

subsection \<open>Scoring\<close>

text \<open>Claim C7: the three scoring examples: \<open>compute_score("4HR", 10, True, 0)\<close> is 1080,
  \<open>compute_score("7H", 13, False, 0)\<close> is 1510 and
  \<open>compute_score("4SX", 8, True, 0)\<close> is -500.\<close>

theorem compute_score_examples:
  "compute_score ''4HR'' 10 True 0 = Inr 1080 \<and>
   compute_score ''7H'' 13 False 0 = Inr 1510 \<and>
   compute_score ''4SX'' 8 True 0 = Inr (- 500)"
  by (simp add: compute_score_def int_of_char_def compute_undertrick_points_def
      compute_contract_points_def compute_bonus_points_def compute_overtrick_points_def)

lemma int_of_char_level:
  "lc \<in> set ''1234567'' \<Longrightarrow> \<exists>level. int_of_char lc = Inr level \<and> 1 \<le> level \<and> level \<le> 7"
  by (auto simp: int_of_char_def)

lemma undertrick_vulnerable_less:
  assumes "1 \<le> u"
  shows "compute_undertrick_points u d True y < compute_undertrick_points u d False y"
proof -
  consider "u = 1" | "u = 2" | "u = 3" | "4 \<le> u" using assms by linarith
  then have a: "200 * min 2 ((2 * u) div 3) + 300 * max (u - 3) 0 < 100 + 300 * (u - 1)"
  proof cases
    case 4
    then have "2 \<le> (2 * u) div 3" by linarith
    with 4 show ?thesis by (simp add: min_def max_def)
  qed simp_all
  show ?thesis
    using assms a by (auto simp: compute_undertrick_points_def Let_def)
qed

lemma bonus_vulnerable_ge:
  "compute_bonus_points l w cp d False \<le> compute_bonus_points l w cp d True"
  by (simp add: compute_bonus_points_def Let_def)

lemma overtrick_vulnerable_ge:
  "0 \<le> ov \<Longrightarrow> compute_overtrick_points ov t d False \<le> compute_overtrick_points ov t d True"
  by (simp add: compute_overtrick_points_def Let_def)

text \<open>Claim C8: for every contract (level 1..7, denomination, doubled-state), trick count
  and year, \<open>compute_score\<close> returns a score for either vulnerability; when the
  contract is defeated the vulnerable score is strictly less than the non-vulnerable one, and
  when it is made the vulnerable score is at least the non-vulnerable one.\<close>

theorem compute_score_vulnerability:
  assumes "lc \<in> set ''1234567''" and "tc \<in> set ''CDHSN''" and "d \<in> {[], ''X'', ''R''}"
  shows "\<exists>level sv sn.
           int_of_char lc = Inr level \<and>
           compute_score (lc # tc # d) w True y = Inr sv \<and>
           compute_score (lc # tc # d) w False y = Inr sn \<and>
           (w < level + 6 \<longrightarrow> sv < sn) \<and> (level + 6 \<le> w \<longrightarrow> sn \<le> sv)"
proof -
  from int_of_char_level [OF assms(1)] obtain level
    where lv: "int_of_char lc = Inr level" "1 \<le> level" "level \<le> 7" by blast
  define dd where "dd = (case d of [] \<Rightarrow> [] | c2 # _ \<Rightarrow> [c2])"
  show ?thesis
  proof (cases "w < level + 6")
    case True
    then have "1 \<le> (level + 6) - w" by simp
    from undertrick_vulnerable_less [OF this, of dd y] True lv show ?thesis
      by (simp add: compute_score_def dd_def)
  next
    case False
    then have "0 \<le> w - (level + 6)" by simp
    from overtrick_vulnerable_ge [OF this, of "[tc]" dd]
      bonus_vulnerable_ge [of level w "compute_contract_points level [tc] dd" dd]
      False lv show ?thesis
      by (simp add: compute_score_def dd_def Let_def)
  qed
qed

theorem compute_score_vulnerability_witness:
  "\<exists>level sv sn.
     int_of_char CHR ''4'' = Inr level \<and>
     compute_score ''4SX'' 8 True 1990 = Inr sv \<and>
     compute_score ''4SX'' 8 False 1990 = Inr sn \<and>
     (8 < level + 6 \<longrightarrow> sv < sn) \<and> (level + 6 \<le> 8 \<longrightarrow> sn \<le> sv)"
  using compute_score_vulnerability [of "CHR ''4''" "CHR ''S''" "''X''" 8 1990] by simp

subsection \<open>Contract bids\<close>

lemma ocb: "ORDERED_CONTRACT_BIDS = [''1C'', ''1D'', ''1H'', ''1S'', ''1N'', ''2C'', ''2D'', ''2H'', ''2S'',
  ''2N'', ''3C'', ''3D'', ''3H'', ''3S'', ''3N'', ''4C'', ''4D'', ''4H'',
  ''4S'', ''4N'', ''5C'', ''5D'', ''5H'', ''5S'', ''5N'', ''6C'', ''6D'',
  ''6H'', ''6S'', ''6N'', ''7C'', ''7D'', ''7H'', ''7S'', ''7N'']"
  by (simp add: ORDERED_CONTRACT_BIDS_def str_digit_def upt_rec)

subsection \<open>Vulnerability\<close>

text \<open>Claim C10: for every input string, \<open>get_vulnerable_players\<close> returns the set of
  all four seats: the result does not depend on the argument, because the loop variable of the
  normalisation loop overwrites it.\<close>

theorem get_vulnerable_players_constant:
  "get_vulnerable_players vulnerable = {''N'', ''E'', ''S'', ''W''}"
  by (simp add: get_vulnerable_players_def)

subsection \<open>Declarer candidates\<close>

text \<open>Claim C5, as stated, fails: on the auction \<open>1S 2S 3S 4S P P P\<close> from seat 0 the
  code differs from the rule "remove the partner whenever the partner is still eligible"
  (the code keeps seats 0 and 1 for spades, the rule as stated removes all four).\<close>

theorem determine_declarer_candidates_counterexample: "determine_declarer_candidates ''1S 2S 3S 4S P P P'' 0
   \<noteq> spec_declarer_candidates ''1S 2S 3S 4S P P P'' 0"
proof -
  have a: "\<exists>m. determine_declarer_candidates ''1S 2S 3S 4S P P P'' 0 = Inr m \<and> m ''S'' = Some {0,1}"
    by (auto simp: determine_declarer_candidates_def ocb)
  have b: "\<exists>m. spec_declarer_candidates ''1S 2S 3S 4S P P P'' 0 = Inr m \<and> m ''S'' = Some {}"
    by (auto simp: spec_declarer_candidates_def ocb)
  from a b show ?thesis by auto
qed


lemma ocb_trump: "bid \<in> set ORDERED_CONTRACT_BIDS \<Longrightarrow> [bid ! 1] \<in> set SUITS"
  by (auto simp: ocb SUITS_def)

lemma ddc_loop_final:
  assumes "set SUITS \<subseteq> dom m"
  shows "\<exists>m'. ddc_loop bids bidder m = Inr m' \<and> dom m' = dom m \<and>
           (\<forall>d c. m d = Some c \<longrightarrow> m' d = Some (final_cands c bids bidder d))"
  using assms
proof (induction bids arbitrary: bidder m)
  case Nil
  then show ?case by simp
next
  case (Cons bid bids)
  show ?case
  proof (cases "bid \<in> set ORDERED_CONTRACT_BIDS")
    case False
    with Cons.IH [OF Cons.prems, of "(bidder + 1) mod 4"] show ?thesis by simp
  next
    case True
    then have "[bid ! 1] \<in> dom m" using Cons.prems ocb_trump by blast
    then obtain cands where cands: "m [bid ! 1] = Some cands" by blast
    show ?thesis
    proof (cases "bidder \<in> cands \<and> (bidder + 2) mod 4 \<in> cands")
      case False
      with Cons.IH [OF Cons.prems, of "(bidder + 1) mod 4"] True cands show ?thesis
        by auto
    next
      case rm: True
      let ?m = "m([bid ! 1] \<mapsto> cands - {(bidder + 2) mod 4})"
      have "set SUITS \<subseteq> dom ?m" using Cons.prems by auto
      from Cons.IH [OF this, of "(bidder + 1) mod 4"] obtain m'
        where m': "ddc_loop bids ((bidder + 1) mod 4) ?m = Inr m'" "dom m' = dom ?m"
          "\<forall>d c. ?m d = Some c \<longrightarrow> m' d = Some (final_cands c bids ((bidder + 1) mod 4) d)"
        by blast
      have e: "ddc_loop (bid # bids) bidder m = Inr m'"
        using True cands rm m'(1) by simp
      have d: "dom m' = dom m" using m'(2) cands by auto
      have f: "m' d = Some (final_cands c (bid # bids) bidder d)" if mc: "m d = Some c" for d c
      proof (cases "d = [bid ! 1]")
        case eq: True
        then have "c = cands" using mc cands by simp
        moreover have "m' d = Some (final_cands (cands - {(bidder + 2) mod 4}) bids ((bidder + 1) mod 4) d)"
          using m'(3) eq by simp
        ultimately show ?thesis using eq rm True by simp
      next
        case ne: False
        then have "m' d = Some (final_cands c bids ((bidder + 1) mod 4) d)"
          using m'(3) mc by simp
        then show ?thesis using ne by auto
      qed
      show ?thesis using e d f by blast
    qed
  qed
qed

lemma small4: "(s::nat) < 4 \<Longrightarrow> s = 0 \<or> s = 1 \<or> s = 2 \<or> s = 3"
  by linarith

lemma partner_facts:
  fixes s b :: nat
  assumes "s < 4" "b < 4"
  shows "(s mod 2 = b mod 2) = (s = b \<or> s = (b + 2) mod 4)"
    and "(s + 2) mod 4 = b \<longleftrightarrow> s = (b + 2) mod 4"
    and "(b + 2) mod 4 \<noteq> b"
    and "((b + 2) mod 4 + 2) mod 4 = b"
proof -
  note s = small4 [OF assms(1)] and b = small4 [OF assms(2)]
  show "(s mod 2 = b mod 2) = (s = b \<or> s = (b + 2) mod 4)"
    using s b by (elim disjE) simp_all
  show "(s + 2) mod 4 = b \<longleftrightarrow> s = (b + 2) mod 4"
    using s b by (elim disjE) simp_all
  show "(b + 2) mod 4 \<noteq> b" using b by (elim disjE) simp_all
  show "((b + 2) mod 4 + 2) mod 4 = b" using b by (elim disjE) simp_all
qed

lemma final_cands_step:
  "final_cands c (bid # bids) bidder d =
     final_cands (if bid \<in> set ORDERED_CONTRACT_BIDS \<and> [bid ! 1] = d \<and> bidder \<in> c
                     \<and> (bidder + 2) mod 4 \<in> c
                  then c - {(bidder + 2) mod 4} else c) bids ((bidder + 1) mod 4) d"
  by simp

lemma first_bidder_step:
  "first_bidder (bid # bids) bidder d side =
     (if bid \<in> set ORDERED_CONTRACT_BIDS \<and> [bid ! 1] = d \<and> bidder mod 2 = side
      then Some bidder else first_bidder bids ((bidder + 1) mod 4) d side)"
  by simp

lemma final_cands_first_bidder:
  assumes "bidder < 4" "c \<subseteq> {0, 1, 2, 3}"
  shows "s \<in> final_cands c bids bidder d \<longleftrightarrow>
           s \<in> c \<and> ((s + 2) mod 4 \<in> c \<longrightarrow>
                     first_bidder bids bidder d (s mod 2) \<noteq> Some ((s + 2) mod 4))"
  using assms
proof (induction bids arbitrary: bidder c)
  case Nil
  have "(s + 2) mod 4 \<noteq> s"
  proof (cases "s < 4")
    case True
    from small4 [OF this] show ?thesis by (elim disjE) simp_all
  next
    case False
    have "(s + 2) mod 4 < 4" by simp
    with False show ?thesis by linarith
  qed
  then show ?case by simp
next
  case (Cons bid bids)
  define p where "p = (bidder + 2) mod 4"
  define K where "K \<longleftrightarrow> bid \<in> set ORDERED_CONTRACT_BIDS \<and> [bid ! 1] = d \<and> bidder \<in> c \<and> p \<in> c"
  define c' where "c' = (if K then c - {p} else c)"
  define b' where "b' = (bidder + 1) mod 4"
  define ps where "ps = (s + 2) mod 4"
  have b'4: "b' < 4" unfolding b'_def by simp
  have c'sub: "c' \<subseteq> {0, 1, 2, 3}" using Cons.prems(2) unfolding c'_def by auto
  have IH: "s \<in> final_cands c' bids b' d \<longleftrightarrow>
            s \<in> c' \<and> (ps \<in> c' \<longrightarrow> first_bidder bids b' d (s mod 2) \<noteq> Some ps)"
    unfolding ps_def by (rule Cons.IH [OF b'4 c'sub])
  have step: "final_cands c (bid # bids) bidder d = final_cands c' bids b' d"
    unfolding c'_def K_def p_def b'_def by (rule final_cands_step)
  have fb: "first_bidder (bid # bids) bidder d (s mod 2) =
     (if bid \<in> set ORDERED_CONTRACT_BIDS \<and> [bid ! 1] = d \<and> bidder mod 2 = s mod 2
      then Some bidder else first_bidder bids b' d (s mod 2))"
    unfolding b'_def by (rule first_bidder_step)
  show ?case
  proof (cases "s < 4")
    case False
    then have "s \<notin> c" using Cons.prems(2) by auto
    moreover then have "s \<notin> c'" unfolding c'_def by simp
    ultimately show ?thesis unfolding step IH by simp
  next
    case s4: True
    note pf = partner_facts [OF s4 Cons.prems(1), folded p_def ps_def]
    show ?thesis
    proof (cases "bid \<in> set ORDERED_CONTRACT_BIDS \<and> [bid ! 1] = d")
      case False
      then have "\<not> K" unfolding K_def by blast
      then have "c' = c" unfolding c'_def by simp
      then show ?thesis unfolding step IH fb ps_def [symmetric] using False by auto
    next
      case bd: True
      show ?thesis
      proof (cases "s mod 2 = bidder mod 2")
        case False
        then have ne: "s \<noteq> bidder" "s \<noteq> p" using pf(1) by auto
        have "ps \<noteq> p"
          using False small4 [OF s4] small4 [OF Cons.prems(1)] unfolding ps_def p_def
          by (elim disjE) simp_all
        then have "s \<in> c' \<longleftrightarrow> s \<in> c" "ps \<in> c' \<longleftrightarrow> ps \<in> c"
          using ne unfolding c'_def by auto
        then show ?thesis unfolding step IH fb ps_def [symmetric] using False by auto
      next
        case True
        then consider "s = bidder" | "s = p" using pf(1) by auto
        then show ?thesis
        proof cases
          case 1
          then have psp: "ps = p" unfolding ps_def p_def by simp
          have np: "p \<noteq> bidder" using pf(3) .
          show ?thesis
          proof (cases K)
            case True
            then have "bidder \<in> c" "p \<in> c" unfolding K_def by auto
            moreover have "c' = c - {p}" using True unfolding c'_def by simp
            ultimately show ?thesis
              unfolding step IH fb ps_def [symmetric] using 1 psp np bd by auto
          next
            case False
            then have cc: "c' = c" unfolding c'_def by simp
            have "bidder \<in> c \<Longrightarrow> p \<notin> c" using False bd unfolding K_def by auto
            then show ?thesis
              unfolding step IH fb ps_def [symmetric] using cc 1 psp np bd by auto
          qed
        next
          case 2
          then have psb: "ps = bidder" using pf(2) by simp
          have np: "p \<noteq> bidder" using pf(3) .
          show ?thesis
          proof (cases K)
            case True
            then have "bidder \<in> c" "p \<in> c" unfolding K_def by auto
            moreover have "c' = c - {p}" using True unfolding c'_def by simp
            ultimately show ?thesis
              unfolding step IH fb ps_def [symmetric] using 2 psb np bd \<open>s mod 2 = bidder mod 2\<close> by auto
          next
            case False
            then have cc: "c' = c" unfolding c'_def by simp
            have "bidder \<in> c \<Longrightarrow> p \<notin> c" using False bd unfolding K_def by auto
            then show ?thesis
              unfolding step IH fb ps_def [symmetric]
              using cc 2 psb np bd \<open>s mod 2 = bidder mod 2\<close> by auto
          qed
        qed
      qed
    qed
  qed
qed

text \<open>Claim C5, amended: for every auction string, bidstart seat index below 4 and
  denomination, \<open>determine_declarer_candidates\<close> returns for that denomination exactly the
  seats whose partner was not the first seat of their side to bid it: a bid removes the
  bidder's partner only while bidder and partner are both still eligible.\<close>

theorem determine_declarer_candidates_first_bidder:
  assumes "bidstart_index < 4" and "d \<in> set SUITS"
  shows "\<exists>m. determine_declarer_candidates auction bidstart_index = Inr m \<and>
             m d = Some {s. s < 4 \<and>
                     first_bidder (split_on CHR '' '' auction) bidstart_index d (s mod 2)
                       \<noteq> Some ((s + 2) mod 4)}"
proof -
  let ?m0 = "[''S'' \<mapsto> {0, 1, 2, 3}, ''H'' \<mapsto> {0, 1, 2, 3}, ''C'' \<mapsto> {0, 1, 2, 3},
        ''D'' \<mapsto> {0, 1, 2, 3::nat}, ''N'' \<mapsto> {0, 1, 2, 3}]"
  let ?bids = "split_on CHR '' '' auction"
  have dom: "set SUITS \<subseteq> dom ?m0" by (simp add: SUITS_def)
  have m0: "?m0 d = Some {0, 1, 2, 3}" using assms(2) by (auto simp: SUITS_def)
  from ddc_loop_final [OF dom, of ?bids bidstart_index]
  obtain m' where m': "ddc_loop ?bids bidstart_index ?m0 = Inr m'"
    "m' d = Some (final_cands {0, 1, 2, 3} ?bids bidstart_index d)"
    using m0 by blast
  have all: "s \<in> {0, 1, 2, 3} \<longleftrightarrow> s < 4" for s :: nat by auto
  have "final_cands {0, 1, 2, 3} ?bids bidstart_index d =
        {s. s < 4 \<and> first_bidder ?bids bidstart_index d (s mod 2) \<noteq> Some ((s + 2) mod 4)}"
  proof (rule set_eqI)
    fix s :: nat
    have "(s + 2) mod 4 < 4" by simp
    then have "(s + 2) mod 4 \<in> {0, 1, 2, 3}" unfolding all .
    then show "s \<in> final_cands {0, 1, 2, 3} ?bids bidstart_index d \<longleftrightarrow>
          s \<in> {s. s < 4 \<and> first_bidder ?bids bidstart_index d (s mod 2) \<noteq> Some ((s + 2) mod 4)}"
      unfolding final_cands_first_bidder [OF assms(1) subset_refl] all by simp
  qed
  with m' show ?thesis by (simp add: determine_declarer_candidates_def)
qed

theorem determine_declarer_candidates_first_bidder_witness:
  "(0::nat) < 4 \<and> ''S'' \<in> set SUITS \<and>
   (\<exists>m. determine_declarer_candidates ''1S 2S 3S 4S P P P'' 0 = Inr m \<and>
        m ''S'' = Some {s. s < 4 \<and>
                     first_bidder (split_on CHR '' '' ''1S 2S 3S 4S P P P'') 0 ''S'' (s mod 2)
                       \<noteq> Some ((s + 2) mod 4)})"
proof -
  have a: "(0::nat) < 4" by simp
  have b: "''S'' \<in> set SUITS" by (simp add: SUITS_def)
  from determine_declarer_candidates_first_bidder [OF a b, of "''1S 2S 3S 4S P P P''"] a b
  show ?thesis by blast
qed


subsection \<open>Auction validation: the pass rule\<close>

lemma valid_shape:
  "t \<in> set VALID_BIDS \<Longrightarrow>
     t = ''P'' \<or> (\<exists>c. t = [c] \<and> c \<noteq> CHR ''P'') \<or>
     (\<exists>c1 c2. t = [c1, c2] \<and> c1 \<noteq> CHR ''P'' \<and> c2 \<noteq> CHR ''P'')"
  unfolding VALID_BIDS_def ocb by (simp, elim disjE) simp_all

lemma re_findall_subset: "set (re_findall alts s) \<subseteq> set alts"
proof (induction alts s rule: re_findall.induct)
  case (1 alts)
  then show ?case by simp
next
  case (2 alts c cs)
  show ?case
  proof (cases "find (\<lambda>a. a \<noteq> [] \<and> take (length a) (c # cs) = a) alts")
    case None
    with 2 show ?thesis by simp
  next
    case (Some a)
    then have "a \<in> set alts" by (auto simp: find_Some_iff)
    with 2 Some show ?thesis by simp
  qed
qed

lemma normalize_values_valid:
  "map_of NORMALIZE_BID bid = Some nb \<Longrightarrow> set (split_on CHR '' '' nb) \<subseteq> set VALID_BIDS"
proof -
  assume "map_of NORMALIZE_BID bid = Some nb"
  then have "(bid, nb) \<in> set NORMALIZE_BID" by (rule map_of_SomeD)
  then have "nb \<in> {''P'', ''P P P'', ''X'', ''R'', ''3S'', ''X R''}"
    by (auto simp: NORMALIZE_BID_def)
  then show ?thesis by (auto simp: VALID_BIDS_def ocb)
qed

lemma alternatives_valid:
  "a \<in> set ([''XX'', ''PASS''] @ removeAll ''P'' VALID_BIDS) \<Longrightarrow>
     (case map_of NORMALIZE_BID a of Some n \<Rightarrow> n | None \<Rightarrow> a) \<in> set VALID_BIDS"
  unfolding VALID_BIDS_def ocb NORMALIZE_BID_def by (simp, elim disjE) simp_all

lemma clean_bid_valid: "set (clean_bid b) \<subseteq> set VALID_BIDS"
proof -
  define bid where "bid = lstrip ''=0='' (rstrip ''!'' (upper b))"
  show ?thesis
  proof (cases "bid \<in> set VALID_BIDS")
    case True
    then show ?thesis by (simp add: clean_bid_def bid_def [symmetric])
  next
    case False
    show ?thesis
    proof (cases "map_of NORMALIZE_BID bid")
      case (Some nb)
      from normalize_values_valid [OF this] False Some show ?thesis
        by (simp add: clean_bid_def bid_def [symmetric])
    next
      case None
      have "set (map (\<lambda>b. case map_of NORMALIZE_BID b of Some n \<Rightarrow> n | None \<Rightarrow> b)
                 (re_findall ([''XX'', ''PASS''] @ removeAll ''P'' VALID_BIDS) bid))
            \<subseteq> set VALID_BIDS"
        using re_findall_subset [of "[''XX'', ''PASS''] @ removeAll ''P'' VALID_BIDS" bid]
          alternatives_valid by auto
      with False None show ?thesis
        by (simp add: clean_bid_def bid_def [symmetric])
    qed
  qed
qed

lemma get_cleaned_bids_valid: "set (get_cleaned_bids auction) \<subseteq> set VALID_BIDS"
  unfolding get_cleaned_bids_def using clean_bid_valid by auto


lemma find_at_ppp:
  "find_at ''P P P'' (c # cs) i =
     (if take 5 (c # cs) = ''P P P'' then int i else find_at ''P P P'' cs (Suc i))"
proof -
  have l: "length ''P P P'' = 5" by simp
  show ?thesis by (subst find_at.simps) (simp only: l)
qed

lemma find_at_first_is_last:
  "find_at ''P P P'' u i = int i + int (length u) - 5 \<longleftrightarrow>
     first_is_last u \<or> (find_at ''P P P'' u i = - 1 \<and> int i + int (length u) = 4)"
proof (induction u arbitrary: i)
  case Nil
  show ?case by simp
next
  case (Cons c cs)
  show ?case
  proof (cases "take 5 (c # cs) = ''P P P''")
    case True
    have "find_at ''P P P'' (c # cs) i = int i" by (subst find_at_ppp) (rule if_P [OF True])
    moreover have "first_is_last (c # cs) \<longleftrightarrow> length (c # cs) = 5"
      by (subst first_is_last.simps) (rule if_P [OF True])
    ultimately show ?thesis by auto
  next
    case False
    have "find_at ''P P P'' (c # cs) i = find_at ''P P P'' cs (Suc i)"
      by (subst find_at_ppp) (rule if_not_P [OF False])
    moreover have "first_is_last (c # cs) = first_is_last cs"
      by (subst first_is_last.simps) (rule if_not_P [OF False])
    moreover have "int i + int (length (c # cs)) = int (Suc i) + int (length cs)" by simp
    ultimately show ?thesis using Cons.IH [of "Suc i"] by (simp only:)
  qed
qed

lemma str_join_Cons:
  "str_join '' '' (t # ts) = t @ concat (map (\<lambda>x. CHR '' '' # x) ts)"
  by (induction ts arbitrary: t) simp_all

lemma first_is_last_skip:
  "c \<noteq> CHR ''P'' \<Longrightarrow> first_is_last (c # u) = first_is_last u"
  by auto

lemma spaced_two_passes:
  assumes "\<forall>t \<in> set ts. t \<in> set VALID_BIDS"
  shows "take 4 (concat (map (\<lambda>x. CHR '' '' # x) ts)) = '' P P'' \<longleftrightarrow>
         take 2 ts = [''P'', ''P'']"
proof (cases ts)
  case Nil
  then show ?thesis by simp
next
  case (Cons t1 ts1)
  then have v1: "t1 \<in> set VALID_BIDS" using assms by simp
  show ?thesis
  proof (cases ts1)
    case Nil
    with Cons valid_shape [OF v1] show ?thesis by auto
  next
    case (Cons t2 ts2)
    then have v2: "t2 \<in> set VALID_BIDS" using assms \<open>ts = t1 # ts1\<close> by simp
    from valid_shape [OF v1] valid_shape [OF v2] Cons \<open>ts = t1 # ts1\<close>
    show ?thesis by (elim disjE exE conjE) simp_all
  qed
qed

lemma spaced_length:
  assumes "\<forall>t \<in> set ts. t \<in> set VALID_BIDS"
  shows "concat (map (\<lambda>x. CHR '' '' # x) ts) = [] \<longleftrightarrow> ts = []"
  by (cases ts) simp_all

lemma first_is_last_tokens:
  assumes "\<forall>t \<in> set ts. t \<in> set VALID_BIDS"
  shows "first_is_last (concat (map (\<lambda>x. CHR '' '' # x) ts)) = tok_first_is_last ts"
  using assms
proof (induction ts)
  case Nil
  show ?case by simp
next
  case (Cons t ts)
  let ?J = "concat (map (\<lambda>x. CHR '' '' # x) ts)"
  have v: "t \<in> set VALID_BIDS" and vs: "\<forall>t \<in> set ts. t \<in> set VALID_BIDS"
    using Cons.prems by simp_all
  note IH = Cons.IH [OF vs]
  have sp: "first_is_last (concat (map (\<lambda>x. CHR '' '' # x) (t # ts))) = first_is_last (t @ ?J)"
    by simp
  from valid_shape [OF v] show ?case
  proof (elim disjE exE conjE)
    assume t: "t = ''P''"
    show ?thesis
    proof (cases "take 2 ts = [''P'', ''P'']")
      case True
      then obtain rest where ts: "ts = ''P'' # ''P'' # rest"
        by (cases ts; cases "tl ts") auto
      have "take 4 ?J = '' P P''" using spaced_two_passes [OF vs] True by simp
      then have "take 5 (CHR ''P'' # ?J) = ''P P P''" by simp
      then have "first_is_last (CHR ''P'' # ?J) \<longleftrightarrow> length (CHR ''P'' # ?J) = 5" by simp
      also have "\<dots> \<longleftrightarrow> rest = []"
        using vs valid_shape [of "hd rest"] unfolding ts by (cases rest) auto
      finally show ?thesis unfolding sp using t True ts by simp
    next
      case False
      then have "take 4 ?J \<noteq> '' P P''" using spaced_two_passes [OF vs] by simp
      then have "take 5 (CHR ''P'' # ?J) \<noteq> ''P P P''" by simp
      then have "first_is_last (CHR ''P'' # ?J) = first_is_last ?J" by simp
      then show ?thesis unfolding sp using t False IH by simp
    qed
  next
    fix c assume t: "t = [c]" and c: "c \<noteq> CHR ''P''"
    then have "t \<noteq> ''P''" by simp
    then show ?thesis unfolding sp using t c IH first_is_last_skip by simp
  next
    fix c1 c2 assume t: "t = [c1, c2]" and c: "c1 \<noteq> CHR ''P''" "c2 \<noteq> CHR ''P''"
    then have "t \<noteq> ''P''" by simp
    then show ?thesis unfolding sp using t c IH first_is_last_skip by simp
  qed
qed


lemma three_passes_at_Cons:
  "three_passes_at (t # ts) 0 \<longleftrightarrow> t = ''P'' \<and> take 2 ts = [''P'', ''P'']"
  "three_passes_at (t # ts) (Suc j) = three_passes_at ts j"
  unfolding three_passes_at_def
  by (cases ts; cases "tl ts") (auto simp: numeral_3_eq_3 numeral_2_eq_2)

lemma three_passes_at_length: "three_passes_at ts j \<Longrightarrow> j + 3 \<le> length ts"
proof -
  assume "three_passes_at ts j"
  then have "length (take 3 (drop j ts)) = 3" unfolding three_passes_at_def by simp
  then show ?thesis by simp
qed

lemma tok_first_is_last_index:
  "tok_first_is_last ts \<longleftrightarrow>
     3 \<le> length ts \<and> three_passes_at ts (length ts - 3) \<and>
     (\<forall>j < length ts - 3. \<not> three_passes_at ts j)"
proof (induction ts)
  case Nil
  show ?case by simp
next
  case (Cons t ts)
  show ?case
  proof (cases "three_passes_at (t # ts) 0")
    case True
    then have tp: "t = ''P''" "take 2 ts = [''P'', ''P'']" by (simp_all add: three_passes_at_Cons)
    then have len: "2 \<le> length ts" by (cases ts; cases "tl ts") auto
    have l: "tok_first_is_last (t # ts) \<longleftrightarrow> ts = [''P'', ''P'']" using tp by simp
    have "ts = [''P'', ''P''] \<longleftrightarrow> length ts = 2"
      using tp(2) by (cases ts; cases "tl ts") auto
    moreover have "length ts = 2 \<longleftrightarrow>
       (3 \<le> length (t # ts) \<and> three_passes_at (t # ts) (length (t # ts) - 3) \<and>
        (\<forall>j < length (t # ts) - 3. \<not> three_passes_at (t # ts) j))"
    proof
      assume "length ts = 2"
      then show "3 \<le> length (t # ts) \<and> three_passes_at (t # ts) (length (t # ts) - 3) \<and>
        (\<forall>j < length (t # ts) - 3. \<not> three_passes_at (t # ts) j)"
        using True by simp
    next
      assume a: "3 \<le> length (t # ts) \<and> three_passes_at (t # ts) (length (t # ts) - 3) \<and>
        (\<forall>j < length (t # ts) - 3. \<not> three_passes_at (t # ts) j)"
      show "length ts = 2"
      proof (rule ccontr)
        assume "length ts \<noteq> 2"
        with len have "0 < length (t # ts) - 3" by simp
        with a True show False by blast
      qed
    qed
    ultimately show ?thesis using l by simp
  next
    case False
    then have "\<not> (t = ''P'' \<and> take 2 ts = [''P'', ''P''])"
      unfolding three_passes_at_Cons .
    then have l: "tok_first_is_last (t # ts) = tok_first_is_last ts"
      by (subst tok_first_is_last.simps) (rule if_not_P)
    show ?thesis
    proof (cases "3 \<le> length ts")
      case True
      then have e: "length (t # ts) - 3 = Suc (length ts - 3)" by simp
      have "(\<forall>j < Suc (length ts - 3). \<not> three_passes_at (t # ts) j) \<longleftrightarrow>
            (\<forall>j < length ts - 3. \<not> three_passes_at ts j)"
      proof
        assume h: "\<forall>j < Suc (length ts - 3). \<not> three_passes_at (t # ts) j"
        show "\<forall>j < length ts - 3. \<not> three_passes_at ts j"
        proof (intro allI impI)
          fix j assume "j < length ts - 3"
          then have "Suc j < Suc (length ts - 3)" by simp
          with h have "\<not> three_passes_at (t # ts) (Suc j)" by blast
          then show "\<not> three_passes_at ts j" by (simp add: three_passes_at_Cons)
        qed
      next
        assume h: "\<forall>j < length ts - 3. \<not> three_passes_at ts j"
        show "\<forall>j < Suc (length ts - 3). \<not> three_passes_at (t # ts) j"
        proof (intro allI impI)
          fix j assume j: "j < Suc (length ts - 3)"
          show "\<not> three_passes_at (t # ts) j"
          proof (cases j)
            case 0
            with False show ?thesis by simp
          next
            case (Suc k)
            with j h show ?thesis by (simp add: three_passes_at_Cons)
          qed
        qed
      qed
      then show ?thesis unfolding l Cons.IH e using True by (simp add: three_passes_at_Cons)
    next
      case short: False
      then have "\<not> tok_first_is_last ts" unfolding Cons.IH by simp
      moreover have "\<not> three_passes_at (t # ts) (length (t # ts) - 3)"
      proof
        assume a: "three_passes_at (t # ts) (length (t # ts) - 3)"
        from three_passes_at_length [OF a] short have "length (t # ts) - 3 = 0" by simp
        with a False show False by simp
      qed
      ultimately show ?thesis unfolding l by simp
    qed
  qed
qed

lemma terminal_passes_only_Cons:
  "terminal_passes_only (t # ts) \<longleftrightarrow> tok_first_is_last ts"
proof -
  have "(\<forall>j \<in> {1 ..< length (t # ts) - 3}. \<not> three_passes_at (t # ts) j) \<longleftrightarrow>
        (\<forall>j < length ts - 3. \<not> three_passes_at ts j)"
  proof
    assume h: "\<forall>j \<in> {1 ..< length (t # ts) - 3}. \<not> three_passes_at (t # ts) j"
    show "\<forall>j < length ts - 3. \<not> three_passes_at ts j"
    proof (intro allI impI)
      fix j assume "j < length ts - 3"
      then have "Suc j \<in> {1 ..< length (t # ts) - 3}" by auto
      with h have "\<not> three_passes_at (t # ts) (Suc j)" by blast
      then show "\<not> three_passes_at ts j" by (simp add: three_passes_at_Cons)
    qed
  next
    assume h: "\<forall>j < length ts - 3. \<not> three_passes_at ts j"
    show "\<forall>j \<in> {1 ..< length (t # ts) - 3}. \<not> three_passes_at (t # ts) j"
    proof
      fix j assume j: "j \<in> {1 ..< length (t # ts) - 3}"
      then obtain k where k: "j = Suc k" by (cases j) auto
      with j have "k < length ts - 3" by auto
      with h k show "\<not> three_passes_at (t # ts) j" by (simp add: three_passes_at_Cons)
    qed
  qed
  moreover have "4 \<le> length (t # ts) \<longleftrightarrow> 3 \<le> length ts" by auto
  moreover have "3 \<le> length ts \<Longrightarrow>
     three_passes_at (t # ts) (length (t # ts) - 3) = three_passes_at ts (length ts - 3)"
  proof -
    assume "3 \<le> length ts"
    then have "length (t # ts) - 3 = Suc (length ts - 3)" by simp
    then show ?thesis by (simp add: three_passes_at_Cons)
  qed
  ultimately show ?thesis
    unfolding terminal_passes_only_def tok_first_is_last_index by blast
qed


lemma check_increasing_not_pass:
  "check_increasing bids i \<noteq> Inl (AuctionError PassError)"
  by (induction bids arbitrary: i) (auto split: option.splits)

lemma check_sequence_not_pass:
  "check_sequence bids pos made d r \<noteq> Inl (AuctionError PassError)"
  by (induction bids pos made d r rule: check_sequence.induct) auto

lemma check_doubles_not_pass:
  "check_doubles groups made \<noteq> Inl (AuctionError PassError)"
proof (induction groups arbitrary: made)
  case Nil
  show ?case by simp
next
  case (Cons g groups)
  show ?case
    using check_sequence_not_pass [of g 0 made False False] Cons.IH [of "made + 1"]
    by (cases "check_sequence g 0 made False False") auto
qed

lemma validate_auction_pass_iff:
  "validate_auction auction = Inl (AuctionError PassError) \<longleftrightarrow>
     auction \<noteq> [] \<and>
     str_find (str_join '' '' (get_cleaned_bids auction)) ''P P P'' 1
       \<noteq> int (length (str_join '' '' (get_cleaned_bids auction))) - 5"
proof (cases "auction = []")
  case True
  then show ?thesis by (simp add: validate_auction_def)
next
  case ne: False
  define cleaned where "cleaned = get_cleaned_bids auction"
  show ?thesis
  proof (cases "str_find (str_join '' '' cleaned) ''P P P'' 1
       \<noteq> int (length (str_join '' '' cleaned)) - 5")
    case True
    then show ?thesis using ne by (simp add: validate_auction_def cleaned_def Let_def)
  next
    case False
    obtain cb ncb n where sep: "foldl separate_step ([], [[]], 0) cleaned = (cb, ncb, n)"
      by (cases "foldl separate_step ([], [[]], 0) cleaned") auto
    have "(case check_increasing cb (- 1) of
                      Inl e \<Rightarrow> Inl e
                    | Inr _ \<Rightarrow>
                       (case check_doubles ncb 0 of
                          Inl e \<Rightarrow> Inl e
                        | Inr _ \<Rightarrow> Inr (str_join '' '' cleaned))) \<noteq> Inl (AuctionError PassError)"
      using check_increasing_not_pass [of cb "- 1"] check_doubles_not_pass [of ncb 0]
      by (cases "check_increasing cb (- 1)"; cases "check_doubles ncb 0") auto
    then show ?thesis using ne False sep
      by (simp add: validate_auction_def cleaned_def [symmetric] Let_def)
  qed
qed

lemma pass_check_tokens:
  assumes v: "\<forall>t \<in> set toks. t \<in> set VALID_BIDS"
    and l4: "length (str_join '' '' toks) \<noteq> 4"
  shows "str_find (str_join '' '' toks) ''P P P'' 1 = int (length (str_join '' '' toks)) - 5
         \<longleftrightarrow> terminal_passes_only toks"
proof (cases toks)
  case Nil
  then show ?thesis by (simp add: str_find_def terminal_passes_only_def)
next
  case (Cons t ts)
  let ?J = "concat (map (\<lambda>x. CHR '' '' # x) ts)"
  let ?s = "str_join '' '' toks"
  have vt: "t \<in> set VALID_BIDS" and vs: "\<forall>t \<in> set ts. t \<in> set VALID_BIDS"
    using v Cons by simp_all
  have s: "?s = t @ ?J" unfolding Cons by (rule str_join_Cons)
  from valid_shape [OF vt] obtain c rest where t: "t = c # rest"
    and rest: "rest = [] \<or> (\<exists>c2. rest = [c2] \<and> c2 \<noteq> CHR ''P'')" by auto
  define u where "u = rest @ ?J"
  have s': "?s = c # u" unfolding s t u_def by simp
  have f: "str_find ?s ''P P P'' 1 = find_at ''P P P'' u 1"
    unfolding s' by (simp add: str_find_def)
  have len: "int (length ?s) - 5 = int 1 + int (length u) - 5" unfolding s' by simp
  have l4': "int 1 + int (length u) \<noteq> 4" using l4 unfolding s' by simp
  have "str_find ?s ''P P P'' 1 = int (length ?s) - 5 \<longleftrightarrow>
        find_at ''P P P'' u 1 = int 1 + int (length u) - 5"
    unfolding f len ..
  also have "\<dots> \<longleftrightarrow> first_is_last u"
    unfolding find_at_first_is_last using l4' by blast
  also have "\<dots> \<longleftrightarrow> first_is_last ?J"
    unfolding u_def using rest first_is_last_skip by auto
  also have "\<dots> \<longleftrightarrow> tok_first_is_last ts" by (rule first_is_last_tokens [OF vs])
  also have "\<dots> \<longleftrightarrow> terminal_passes_only toks"
    unfolding Cons by (rule terminal_passes_only_Cons [symmetric])
  finally show ?thesis .
qed

lemma three_passes_at_replicate:
  "three_passes_at (replicate n ''P'') j \<longleftrightarrow> j + 3 \<le> n"
proof -
  have "take 3 (drop j (replicate n ''P'')) = replicate (min 3 (n - j)) ''P''" by simp
  moreover have "replicate (min 3 (n - j)) ''P'' = [''P'', ''P'', ''P''] \<longleftrightarrow> min 3 (n - j) = 3"
  proof
    assume "replicate (min 3 (n - j)) ''P'' = [''P'', ''P'', ''P'']"
    then have "length (replicate (min 3 (n - j)) ''P'') = length [''P'', ''P'', ''P'']" by simp
    then show "min 3 (n - j) = 3" by simp
  next
    assume "min 3 (n - j) = 3"
    then show "replicate (min 3 (n - j)) ''P'' = [''P'', ''P'', ''P'']"
      by (simp add: numeral_3_eq_3)
  qed
  ultimately show ?thesis unfolding three_passes_at_def by auto
qed

lemma terminal_passes_only_replicate:
  "terminal_passes_only (replicate n ''P'') \<longleftrightarrow> n = 4"
proof
  assume a: "terminal_passes_only (replicate n ''P'')"
  then have n4: "4 \<le> n" and no: "\<forall>j \<in> {1 ..< n - 3}. \<not> j + 3 \<le> n"
    unfolding terminal_passes_only_def three_passes_at_replicate by simp_all
  show "n = 4"
  proof (rule ccontr)
    assume "n \<noteq> 4"
    with n4 have "1 \<in> {1 ..< n - 3}" by auto
    with no have "\<not> 1 + 3 \<le> n" by blast
    with n4 show False by simp
  qed
next
  assume "n = 4"
  then show "terminal_passes_only (replicate n ''P'')"
    unfolding terminal_passes_only_def three_passes_at_replicate by simp
qed

lemma length_join_replicate:
  "length (str_join '' '' (replicate n ''P'')) \<noteq> 4"
proof -
  have "length (str_join '' '' (replicate n ''P'')) = 2 * n - 1"
  proof (cases n)
    case 0
    then show ?thesis by simp
  next
    case (Suc k)
    have "length (concat (map (\<lambda>x. CHR '' '' # x) (replicate k ''P''))) = 2 * k"
      by (induction k) simp_all
    then show ?thesis unfolding Suc replicate_Suc str_join_Cons by simp
  qed
  then show ?thesis by arith
qed

text \<open>Claim C1, amended: for every non-empty raw auction whose cleaned form is not
  exactly four characters long, \<open>validate_auction\<close> raises \<open>PassError\<close> unless the
  normalized token sequence has at least four tokens, ends in three passes, and that terminal
  run is the only run of three consecutive passes starting at or after position 1; an
  all-pass auction is accepted exactly when it consists of four passes.\<close>

theorem validate_auction_pass_error:
  assumes "auction \<noteq> []"
    and "length (str_join '' '' (get_cleaned_bids auction)) \<noteq> 4"
  shows "(validate_auction auction = Inl (AuctionError PassError) \<longleftrightarrow>
            \<not> terminal_passes_only (get_cleaned_bids auction)) \<and>
         (\<forall>n. get_cleaned_bids auction = replicate n ''P'' \<longrightarrow>
            (validate_auction auction = Inr (str_join '' '' (replicate n ''P'')) \<longleftrightarrow> n = 4))"
proof
  have v: "\<forall>t \<in> set (get_cleaned_bids auction). t \<in> set VALID_BIDS"
    using get_cleaned_bids_valid by auto
  show main: "validate_auction auction = Inl (AuctionError PassError) \<longleftrightarrow>
            \<not> terminal_passes_only (get_cleaned_bids auction)"
    unfolding validate_auction_pass_iff using pass_check_tokens [OF v assms(2)] assms(1) by simp
  show "\<forall>n. get_cleaned_bids auction = replicate n ''P'' \<longrightarrow>
            (validate_auction auction = Inr (str_join '' '' (replicate n ''P'')) \<longleftrightarrow> n = 4)"
  proof (intro allI impI)
    fix n assume c: "get_cleaned_bids auction = replicate n ''P''"
    show "validate_auction auction = Inr (str_join '' '' (replicate n ''P'')) \<longleftrightarrow> n = 4"
    proof
      assume "validate_auction auction = Inr (str_join '' '' (replicate n ''P''))"
      then have "validate_auction auction \<noteq> Inl (AuctionError PassError)" by simp
      then have "terminal_passes_only (replicate n ''P'')" using main c by simp
      then show "n = 4" by (simp only: terminal_passes_only_replicate)
    next
      assume "n = 4"
      then have c4: "get_cleaned_bids auction = [''P'', ''P'', ''P'', ''P'']"
        using c by (simp add: numeral_eq_Suc)
      have "validate_auction auction = Inr ''P P P P''"
        using assms(1)
        by (simp add: validate_auction_def c4 str_find_def separate_step_def ocb)
      then show "validate_auction auction = Inr (str_join '' '' (replicate n ''P''))"
        using \<open>n = 4\<close> by (simp add: numeral_eq_Suc)
    qed
  qed
qed

theorem validate_auction_pass_error_witness:
  "''1C P P P P'' \<noteq> [] \<and> length (str_join '' '' (get_cleaned_bids ''1C P P P P'')) \<noteq> 4 \<and>
   validate_auction ''1C P P P P'' = Inl (AuctionError PassError) \<and>
   \<not> terminal_passes_only (get_cleaned_bids ''1C P P P P'')"
proof -
  have c: "get_cleaned_bids ''1C P P P P'' = [''1C'', ''P'', ''P'', ''P'', ''P'']"
    by (simp add: get_cleaned_bids_def clean_bid_def upper_def upper_char_def rstrip_def
        lstrip_def VALID_BIDS_def ocb)
  have a: "''1C P P P P'' \<noteq> []" by simp
  have b: "length (str_join '' '' (get_cleaned_bids ''1C P P P P'')) \<noteq> 4"
    unfolding c by simp
  have e: "validate_auction ''1C P P P P'' = Inl (AuctionError PassError)"
    by (simp add: validate_auction_def c str_find_def)
  from validate_auction_pass_error [OF a b] a b e show ?thesis by blast
qed

text \<open>Claim C1, as stated, fails: the auction of exactly three passes is rejected with
  \<open>PassError\<close>, where the claim says it is accepted.\<close>

theorem validate_auction_three_passes_counterexample:
  "validate_auction ''P P P'' = Inl (AuctionError PassError)"
proof -
  have c: "get_cleaned_bids ''P P P'' = [''P'', ''P'', ''P'']"
    by (simp add: get_cleaned_bids_def clean_bid_def upper_def upper_char_def rstrip_def
        lstrip_def VALID_BIDS_def ocb)
  show ?thesis by (simp add: validate_auction_def c str_find_def)
qed


text \<open>A cleaned auction of exactly four characters escapes the pass check, because
  \<open>find\<close> returns -1 and the expected position is \<open>4 - 5\<close>.\<close>

lemma validate_auction_length_four: "validate_auction ''1C P'' = Inr ''1C P''"
proof -
  have c: "get_cleaned_bids ''1C P'' = [''1C'', ''P'']"
    by (simp add: get_cleaned_bids_def clean_bid_def upper_def upper_char_def rstrip_def
        lstrip_def VALID_BIDS_def ocb)
  show ?thesis by (simp add: validate_auction_def c str_find_def separate_step_def ocb)
qed

subsection \<open>Deal validation\<close>

lemma mset_map_remove1:
  "x \<in> set d \<Longrightarrow> mset (map f (remove1 x d)) + {#f x#} = mset (map f d)"
  by (induction d) auto

lemma cards_of_remove:
  assumes "i < length ds" "i < length ss" "x \<in> set (ds ! i)"
  shows "mset (cards_of ss (ds[i := remove1 x (ds ! i)])) + {#(ss ! i) @ x#} = mset (cards_of ss ds)"
  using assms
proof (induction ds arbitrary: i ss)
  case Nil
  then show ?case by simp
next
  case (Cons d ds)
  then obtain s ss' where ss: "ss = s # ss'" by (cases ss) auto
  show ?case
  proof (cases i)
    case 0
    with Cons.prems ss mset_map_remove1 [of x d "\<lambda>rank. s @ rank"] show ?thesis
      by (simp add: cards_of_def)
  next
    case (Suc k)
    with Cons.prems ss have "k < length ds" "k < length ss'" "x \<in> set (ds ! k)" by simp_all
    from Cons.IH [OF this] Suc ss show ?thesis by (simp add: cards_of_def)
  qed
qed

lemma concat_update_append:
  "i < length xs \<Longrightarrow> mset (concat (xs[i := xs ! i @ ys])) = mset (concat xs) + mset ys"
proof (induction xs arbitrary: i)
  case Nil
  then show ?case by simp
next
  case (Cons x xs)
  then show ?case by (cases i) simp_all
qed

lemma deal_card_inv:
  assumes "deal_card st sp seat c = Inr st'" "deal_inv st" "seat < 4"
  shows "deal_inv st' \<and> dealt st' = dealt st \<and>
         (\<forall>s<4. hand_len st' s = hand_len st s + (if s = seat then 1 else 0))"
proof -
  obtain deck hands where st: "st = (deck, hands)" by (cases st)
  from assms(2) have len: "length deck = 4" "length hands = 4" by (simp_all add: deal_inv_def st)
  from assms(1) have sp: "sp < length deck" and mem: "[c] \<in> set (deck ! sp)"
    and st': "st' = (deck[sp := remove1 [c] (deck ! sp)],
                     hands[seat := (hands ! seat) @ [(SUITS ! sp) @ [c]]])"
    by (auto simp: deal_card_def st split: if_splits)
  have sp5: "sp < length SUITS" using sp len by (simp add: SUITS_def)
  have "mset (cards_of SUITS (deck[sp := remove1 [c] (deck ! sp)])) + {#(SUITS ! sp) @ [c]#}
        = mset (cards_of SUITS deck)"
    by (rule cards_of_remove [OF sp sp5 mem])
  moreover have "mset (concat (hands[seat := (hands ! seat) @ [(SUITS ! sp) @ [c]]]))
        = mset (concat hands) + {#(SUITS ! sp) @ [c]#}"
    using concat_update_append [of seat hands "[(SUITS ! sp) @ [c]]"] assms(3) len by simp
  ultimately have "dealt st' = dealt st"
    unfolding dealt_def st st' by (simp add: ac_simps)
  moreover have "deal_inv st'" using len by (simp add: deal_inv_def st')
  moreover have "\<forall>s<4. hand_len st' s = hand_len st s + (if s = seat then 1 else 0)"
    using len assms(3) by (auto simp: hand_len_def st st' nth_list_update)
  ultimately show ?thesis by blast
qed

lemma deal_suit_inv:
  assumes "deal_suit st sp seat cs = Inr st'" "deal_inv st" "seat < 4"
  shows "deal_inv st' \<and> dealt st' = dealt st \<and>
         (\<forall>s<4. hand_len st' s = hand_len st s + (if s = seat then length cs else 0))"
  using assms
proof (induction cs arbitrary: st)
  case Nil
  then show ?case by simp
next
  case (Cons c cs)
  from Cons.prems(1) obtain st1 where 1: "deal_card st sp seat c = Inr st1"
    and 2: "deal_suit st1 sp seat cs = Inr st'"
    by (auto split: sum.splits)
  from deal_card_inv [OF 1 Cons.prems(2,3)] have a: "deal_inv st1" "dealt st1 = dealt st"
    "\<forall>s<4. hand_len st1 s = hand_len st s + (if s = seat then 1 else 0)" by blast+
  from Cons.IH [OF 2 a(1) Cons.prems(3)] a show ?case by auto
qed

lemma deal_suits_inv:
  assumes "deal_suits st sp seat suits = Inr st'" "deal_inv st" "seat < 4"
  shows "deal_inv st' \<and> dealt st' = dealt st \<and>
         (\<forall>s<4. hand_len st' s = hand_len st s + (if s = seat then sum_list (map length suits) else 0))"
  using assms
proof (induction suits arbitrary: st sp)
  case Nil
  then show ?case by simp
next
  case (Cons suit suits)
  from Cons.prems(1) obtain st1 where 1: "deal_suit st sp seat suit = Inr st1"
    and 2: "deal_suits st1 (sp + 1) seat suits = Inr st'"
    by (auto split: sum.splits)
  from deal_suit_inv [OF 1 Cons.prems(2,3)] have a: "deal_inv st1" "dealt st1 = dealt st"
    "\<forall>s<4. hand_len st1 s = hand_len st s + (if s = seat then length suit else 0)" by blast+
  from Cons.IH [OF 2 a(1) Cons.prems(3)] a show ?case by auto
qed

lemma deal_hands_inv:
  assumes "deal_hands st p off hs = Inr st'" "deal_inv st"
  shows "deal_inv st' \<and> dealt st' = dealt st \<and>
         (\<forall>s<4. hand_len st' s = hand_len st s +
              13 * length (filter (\<lambda>k. (k + off) mod 4 = s) [p ..< p + length hs]))"
  using assms
proof (induction hs arbitrary: st p)
  case Nil
  then show ?case by simp
next
  case (Cons h hs)
  let ?suits = "split_on CHR ''.'' h"
  let ?seat = "(p + off) mod 4"
  from Cons.prems(1) have s13: "sum_list (map length ?suits) = 13"
    by (auto simp: Let_def split: if_splits)
  from Cons.prems(1) s13 obtain st1 where 1: "deal_suits st 0 ?seat ?suits = Inr st1"
    and 2: "deal_hands st1 (p + 1) off hs = Inr st'"
    by (auto simp: Let_def split: sum.splits)
  have seat: "?seat < 4" by simp
  from deal_suits_inv [OF 1 Cons.prems(2) seat] s13 have a: "deal_inv st1" "dealt st1 = dealt st"
    "\<forall>s<4. hand_len st1 s = hand_len st s + (if s = ?seat then 13 else 0)" by auto
  from Cons.IH [OF 2 a(1)] have b: "deal_inv st'" "dealt st' = dealt st1"
    "\<forall>s<4. hand_len st' s = hand_len st1 s +
              13 * length (filter (\<lambda>k. (k + off) mod 4 = s) [p + 1 ..< p + 1 + length hs])"
    by blast+
  have up: "[p ..< p + length (h # hs)] = p # [p + 1 ..< p + 1 + length hs]"
    by (simp add: upt_rec)
  show ?case
  proof (intro conjI allI impI)
    show "deal_inv st'" by (rule b(1))
    show "dealt st' = dealt st" using a(2) b(2) by simp
    fix s :: nat assume "s < 4"
    with a(3) b(3) show "hand_len st' s = hand_len st s +
              13 * length (filter (\<lambda>k. (k + off) mod 4 = s) [p ..< p + length (h # hs)])"
      unfolding up by auto
  qed
qed


lemma index_of_less: "index_of x xs = Some i \<Longrightarrow> i < length xs"
  by (induction xs arbitrary: i) (auto split: if_splits)

lemma one_hand_per_seat:
  assumes "off < 4" "s < 4"
  shows "length (filter (\<lambda>k. (k + off) mod 4 = s) [0 ..< 0 + 4]) = 1"
proof -
  have u: "[0 ..< 0 + 4] = [0, 1, 2, 3::nat]" by (simp add: upt_rec)
  from small4 [OF assms(1)] small4 [OF assms(2)] show ?thesis
    unfolding u by (elim disjE) simp_all
qed

lemma full_deck_explicit:
  "full_deck = [''SA'', ''SK'', ''SQ'', ''SJ'', ''ST'', ''S9'', ''S8'', ''S7'', ''S6'',
  ''S5'', ''S4'', ''S3'', ''S2'', ''HA'', ''HK'', ''HQ'', ''HJ'', ''HT'',
  ''H9'', ''H8'', ''H7'', ''H6'', ''H5'', ''H4'', ''H3'', ''H2'', ''DA'',
  ''DK'', ''DQ'', ''DJ'', ''DT'', ''D9'', ''D8'', ''D7'', ''D6'', ''D5'',
  ''D4'', ''D3'', ''D2'', ''CA'', ''CK'', ''CQ'', ''CJ'', ''CT'', ''C9'',
  ''C8'', ''C7'', ''C6'', ''C5'', ''C4'', ''C3'', ''C2'']"
  by (simp add: full_deck_def RANKS_def SUITS_def str_digit_def upt_rec)

lemma distinct_full_deck: "distinct full_deck"
  unfolding full_deck_explicit by simp

lemma length_full_deck: "length full_deck = 52"
  unfolding full_deck_explicit by simp

lemma initial_cards: "cards_of SUITS (replicate 4 RANKS) = full_deck"
  by (simp add: cards_of_def full_deck_def SUITS_def numeral_eq_Suc)

text \<open>Claim C2, amended: for every deal string with exactly four space-separated hand
  fields on which \<open>validate_deal\<close> returns, there are four hands of 13 cards each and
  their concatenation holds every one of the 52 cards exactly once.\<close>

theorem validate_deal_full_deck:
  assumes "validate_deal deal = Inr hands"
    and "length (split_on CHR '' '' (drop 2 deal)) = 4"
  shows "length hands = 4 \<and> (\<forall>seat<4. length (hands ! seat) = 13) \<and>
         mset (concat hands) = mset full_deck \<and> distinct (concat hands)"
proof -
  let ?init = "(replicate 4 RANKS, replicate 4 [])"
  let ?hs = "split_on CHR '' '' (drop 2 deal)"
  from assms(1) obtain c off deck where off: "index_of [c] ORDER = Some off"
    and run: "deal_hands ?init 0 off ?hs = Inr (deck, hands)"
    by (auto simp: validate_deal_def split: list.splits option.splits sum.splits)
  from index_of_less [OF off] have off4: "off < 4" by (simp add: ORDER_def)
  have inv0: "deal_inv ?init" by (simp add: deal_inv_def)
  from deal_hands_inv [OF run inv0] have inv: "deal_inv (deck, hands)"
    and d: "dealt (deck, hands) = dealt ?init"
    and l: "\<forall>s<4. hand_len (deck, hands) s = hand_len ?init s +
              13 * length (filter (\<lambda>k. (k + off) mod 4 = s) [0 ..< 0 + length ?hs])"
    by blast+
  from inv have len: "length hands = 4" by (simp add: deal_inv_def)
  have each: "length (hands ! s) = 13" if "s < 4" for s
  proof -
    have "hand_len ?init s = 0" using that by (simp add: hand_len_def)
    with l that one_hand_per_seat [OF off4 that] show ?thesis
      unfolding assms(2) by (simp add: hand_len_def)
  qed
  from len obtain h0 h1 h2 h3 where hs: "hands = [h0, h1, h2, h3]"
    by (auto simp: length_Suc_conv numeral_eq_Suc)
  have "length (concat hands) = 52"
    using each [of 0] each [of 1] each [of 2] each [of 3] unfolding hs by simp
  then have sz: "size (mset (concat hands)) = size (mset full_deck)"
    by (simp add: length_full_deck)
  have "mset (concat hands) + mset (cards_of SUITS deck) = mset full_deck"
    using d by (simp add: dealt_def initial_cards)
  then have eq: "mset (concat hands) + mset (cards_of SUITS deck) = mset full_deck" .
  then have "size (mset (concat hands)) + size (mset (cards_of SUITS deck)) = size (mset full_deck)"
    by (metis size_union)
  with sz have "mset (cards_of SUITS deck) = {#}" by simp
  with eq have m: "mset (concat hands) = mset full_deck" by simp
  have "distinct (concat hands)"
    using mset_eq_imp_distinct_iff [OF m] distinct_full_deck by simp
  with len each m show ?thesis by blast
qed

text \<open>Claim C2, as stated, fails: a deal string with a single hand of thirteen spades is
  returned without raising, and the four hands together hold 13 cards, not 52.\<close>

theorem validate_deal_single_hand_counterexample:
  "validate_deal ''N:AKQJT98765432'' =
     Inr [[''SA'', ''SK'', ''SQ'', ''SJ'', ''ST'', ''S9'', ''S8'', ''S7'', ''S6'', ''S5'',
           ''S4'', ''S3'', ''S2''], [], [], []]"
  by code_simp

theorem validate_deal_full_deck_witness:
  "validate_deal ''N:AK75.54.987653.A Q.AT983.42.JT753 642.KQJ7.AQJ.962 JT983.62.KT.KQ84'' =
     Inr [[''SA'', ''SK'', ''S7'', ''S5'', ''H5'', ''H4'', ''D9'', ''D8'',
       ''D7'', ''D6'', ''D5'', ''D3'', ''CA''],
      [''SQ'', ''HA'', ''HT'', ''H9'', ''H8'', ''H3'', ''D4'', ''D2'',
       ''CJ'', ''CT'', ''C7'', ''C5'', ''C3''],
      [''S6'', ''S4'', ''S2'', ''HK'', ''HQ'', ''HJ'', ''H7'', ''DA'',
       ''DQ'', ''DJ'', ''C9'', ''C6'', ''C2''],
      [''SJ'', ''ST'', ''S9'', ''S8'', ''S3'', ''H6'', ''H2'', ''DK'',
       ''DT'', ''CK'', ''CQ'', ''C8'', ''C4'']] \<and>
   length (split_on CHR '' ''
     (drop 2 ''N:AK75.54.987653.A Q.AT983.42.JT753 642.KQJ7.AQJ.962 JT983.62.KT.KQ84'')) = 4 \<and>
   mset (concat [[''SA'', ''SK'', ''S7'', ''S5'', ''H5'', ''H4'', ''D9'', ''D8'',
       ''D7'', ''D6'', ''D5'', ''D3'', ''CA''],
      [''SQ'', ''HA'', ''HT'', ''H9'', ''H8'', ''H3'', ''D4'', ''D2'',
       ''CJ'', ''CT'', ''C7'', ''C5'', ''C3''],
      [''S6'', ''S4'', ''S2'', ''HK'', ''HQ'', ''HJ'', ''H7'', ''DA'',
       ''DQ'', ''DJ'', ''C9'', ''C6'', ''C2''],
      [''SJ'', ''ST'', ''S9'', ''S8'', ''S3'', ''H6'', ''H2'', ''DK'',
       ''DT'', ''CK'', ''CQ'', ''C8'', ''C4'']]) = mset full_deck"
proof -
  let ?d = "''N:AK75.54.987653.A Q.AT983.42.JT753 642.KQJ7.AQJ.962 JT983.62.KT.KQ84''"
  let ?h = "[[''SA'', ''SK'', ''S7'', ''S5'', ''H5'', ''H4'', ''D9'', ''D8'',
       ''D7'', ''D6'', ''D5'', ''D3'', ''CA''],
      [''SQ'', ''HA'', ''HT'', ''H9'', ''H8'', ''H3'', ''D4'', ''D2'',
       ''CJ'', ''CT'', ''C7'', ''C5'', ''C3''],
      [''S6'', ''S4'', ''S2'', ''HK'', ''HQ'', ''HJ'', ''H7'', ''DA'',
       ''DQ'', ''DJ'', ''C9'', ''C6'', ''C2''],
      [''SJ'', ''ST'', ''S9'', ''S8'', ''S3'', ''H6'', ''H2'', ''DK'',
       ''DT'', ''CK'', ''CQ'', ''C8'', ''C4'']]"
  have a: "validate_deal ?d = Inr ?h" by code_simp
  have b: "length (split_on CHR '' '' (drop 2 ?d)) = 4" by code_simp
  from validate_deal_full_deck [OF a b] a b show ?thesis by blast
qed

subsection \<open>Play validation\<close>

lemma copy_inner_frame:
  assumes "copy_inner src h memo rs = Inr (as, h')"
    and "\<forall>(r, a) \<in> set memo. n0 \<le> a \<and> a < length h"
    and "n0 \<le> length h"
  shows "(\<exists>ext. h' = h @ ext) \<and> (\<forall>a \<in> set as. n0 \<le> a \<and> a < length h')"
  using assms
proof (induction rs arbitrary: h memo as h')
  case Nil
  then show ?case by simp
next
  case (Cons r rs)
  show ?case
  proof (cases "map_of memo r")
    case (Some a)
    with Cons.prems(1) obtain as1 where 1: "copy_inner src h memo rs = Inr (as1, h')"
      and as: "as = a # as1"
      by (auto split: sum.splits)
    from Cons.IH [OF 1 Cons.prems(2,3)] have ih: "\<exists>ext. h' = h @ ext"
      "\<forall>a \<in> set as1. n0 \<le> a \<and> a < length h'" by blast+
    from Some have "(r, a) \<in> set memo" by (rule map_of_SomeD)
    with Cons.prems(2) have "n0 \<le> a \<and> a < length h" by auto
    moreover from ih(1) have "length h \<le> length h'" by auto
    ultimately show ?thesis using ih as by auto
  next
    case None
    with Cons.prems(1) obtain xs as1 where
      1: "copy_inner src (h @ [StrList xs]) ((r, length h) # memo) rs = Inr (as1, h')"
      and as: "as = length h # as1"
      by (auto simp: alloc_def split: if_splits obj.splits sum.splits)
    have m: "\<forall>(r, a) \<in> set ((r, length h) # memo). n0 \<le> a \<and> a < length (h @ [StrList xs])"
      using Cons.prems(2,3) by auto
    have n: "n0 \<le> length (h @ [StrList xs])" using Cons.prems(3) by simp
    from Cons.IH [OF 1 m n] obtain ext where ext: "h' = (h @ [StrList xs]) @ ext"
      and b: "\<forall>a \<in> set as1. n0 \<le> a \<and> a < length h'" by blast
    from ext have "h' = h @ (StrList xs # ext)" by simp
    moreover from ext have "length h < length h'" by simp
    ultimately show ?thesis using b as Cons.prems(3) by auto
  qed
qed

lemma deepcopy_frame:
  assumes "deepcopy h ref = Inr (c, h1)"
  shows "(\<exists>ext. h1 = h @ ext) \<and> fresh_hands (length h) h1 c"
proof -
  from assms obtain rs as h' where 1: "copy_inner h h [] rs = Inr (as, h')"
    and c: "c = length h'" and h1: "h1 = h' @ [RefList as]"
    by (auto simp: deepcopy_def alloc_def split: if_splits obj.splits sum.splits)
  have "\<forall>(r, a) \<in> set []. length h \<le> a \<and> a < length h" by simp
  from copy_inner_frame [OF 1 this le_refl] obtain ext where ext: "h' = h @ ext"
    and b: "\<forall>a \<in> set as. length h \<le> a \<and> a < length h'" by blast
  have "h1 = h @ (ext @ [RefList as])" using ext h1 by simp
  moreover have "fresh_hands (length h) h1 c"
    unfolding fresh_hands_def using b c h1 ext by (auto simp: nth_append)
  ultimately show ?thesis by blast
qed

lemma remove_from_hand_frame:
  assumes "remove_from_hand h c k crd = Inr h'" and "fresh_hands n0 h c"
  shows "fresh_hands n0 h' c \<and> take n0 h' = take n0 h"
proof -
  from assms(2) obtain as where c: "c < length h" "n0 \<le> c" and as: "h ! c = RefList as"
    and fr: "\<forall>a \<in> set as. n0 \<le> a \<and> a \<noteq> c"
    unfolding fresh_hands_def by blast
  from assms(1) c as obtain xs where k: "k < length as"
    and h': "h' = h[as ! k := StrList xs]"
    by (auto simp: remove_from_hand_def split: if_splits obj.splits)
  from k fr have a: "n0 \<le> as ! k" "as ! k \<noteq> c" by auto
  have "take n0 h' = take n0 h" unfolding h' using a(1) by simp
  moreover have "fresh_hands n0 h' c"
    unfolding fresh_hands_def h' using c as fr a by auto
  ultimately show ?thesis by blast
qed

lemma play_loop_frame:
  assumes "fresh_hands n0 h c"
  shows "take n0 (snd (play_loop h c trump lp d st pos cards)) = take n0 h"
  using assms
proof (induction cards arbitrary: h st pos)
  case Nil
  show ?case by simp
next
  case (Cons crd cards)
  show ?case
  proof (cases "num_dashes st \<noteq> 0")
    case True
    then show ?thesis by simp
  next
    case nd: False
    let ?r = "if crd \<noteq> ''-'' then remove_from_hand h c (nat ((lp + int pos) mod 4)) crd else Inr h"
    show ?thesis
    proof (cases ?r)
      case (Inl e)
      with nd show ?thesis by simp
    next
      case (Inr h1)
      have f1: "fresh_hands n0 h1 c \<and> take n0 h1 = take n0 h"
      proof (cases "crd \<noteq> ''-''")
        case True
        with Inr have "remove_from_hand h c (nat ((lp + int pos) mod 4)) crd = Inr h1" by simp
        from remove_from_hand_frame [OF this Cons.prems] show ?thesis .
      next
        case False
        with Inr have "h1 = h" by simp
        with Cons.prems show ?thesis by simp
      qed
      note IH = Cons.IH [OF conjunct1 [OF f1]]
      show ?thesis
      proof (cases "pos mod 4 = 3")
        case False
        with nd Inr IH f1 show ?thesis by (simp add: Let_def)
      next
        case True
        show ?thesis
        proof (cases "read_hands h1 c")
          case (Inl e)
          with nd Inr True f1 show ?thesis by (simp add: Let_def)
        next
          case hs: (Inr hs)
          show ?thesis
          proof (cases "end_of_trick hs trump lp d (st\<lparr>trick := trick st @ [crd]\<rparr>)")
            case (Inl e)
            with nd Inr True hs f1 show ?thesis by (simp add: Let_def)
          next
            case st2: (Inr st2)
            with nd Inr True hs f1 IH show ?thesis by (simp add: Let_def)
          qed
        qed
      qed
    qed
  qed
qed

lemma validate_play_prefix:
  "take (length h) (snd (validate_play h play_sequence lead hands trump)) = h"
proof (cases "play_sequence = [] \<or> lead = [] \<or> trump = []")
  case True
  then show ?thesis by (simp add: validate_play_def)
next
  case ok: False
  show ?thesis
  proof (cases "deepcopy h hands")
    case (Inl e)
    with ok show ?thesis by (simp add: validate_play_def)
  next
    case (Inr p)
    obtain c h1 where p: "p = (c, h1)" by (cases p)
    from deepcopy_frame [OF Inr [unfolded p]] obtain ext where ext: "h1 = h @ ext"
      and fr: "fresh_hands (length h) h1 c" by blast
    have t1: "take (length h) h1 = h" using ext by simp
    show ?thesis
    proof (cases "read_hands h1 c")
      case (Inl e)
      with ok Inr p t1 show ?thesis by (simp add: validate_play_def Let_def)
    next
      case hs: (Inr hs)
      let ?ps = "foldl (\<lambda>ps (bid, replacement). str_replace ps bid replacement)
                   play_sequence [(''HTHQ'', ''HT HQ''), (''--'', ''-'')]"
      let ?plays = "filter_plays ([''-''] @ concat hs) (split_on CHR '' '' ?ps) 0"
      show ?thesis
      proof (cases "length ?plays mod 4 \<noteq> 0")
        case True
        with ok Inr p t1 hs show ?thesis by (simp add: validate_play_def Let_def)
      next
        case bal: False
        show ?thesis
        proof (cases "index_of lead ORDER")
          case None
          with ok Inr p t1 hs bal show ?thesis by (simp add: validate_play_def Let_def)
        next
          case (Some lp)
          let ?st0 = "\<lparr>ordered_play_sequence = [], play_order_sequence = [],
                       tricks_played = 0, tricks_won_by_declarer = 0,
                       trick_leader = int lp, trick = [], num_dashes = 0\<rparr>"
          let ?run = "play_loop h1 c trump (int lp) ((int lp - 1) mod 4) ?st0 0 ?plays"
          have "take (length h) (snd ?run) = take (length h) h1"
            by (rule play_loop_frame [OF fr])
          then have fin: "take (length h) (snd ?run) = h" using t1 by simp
          obtain r h2 where run: "?run = (r, h2)" by (cases ?run)
          have "snd (validate_play h play_sequence lead hands trump) = h2"
            using ok Inr p hs bal Some run
            by (cases r) (simp_all add: validate_play_def Let_def)
          with fin run show ?thesis by simp
        qed
      qed
    qed
  qed
qed


lemma read_inner_extend:
  "read_inner h rs = Inr hs \<Longrightarrow> read_inner (h @ ext) rs = Inr hs"
proof (induction rs arbitrary: hs)
  case Nil
  then show ?case by simp
next
  case (Cons r rs)
  from Cons.prems obtain xs hs1 where r: "r < length h" and x: "h ! r = StrList xs"
    and 1: "read_inner h rs = Inr hs1" and hs: "hs = xs # hs1"
    by (auto split: if_splits obj.splits sum.splits)
  from Cons.IH [OF 1] r x hs show ?case by (simp add: nth_append)
qed

lemma read_hands_extend:
  "read_hands h ref = Inr hs \<Longrightarrow> read_hands (h @ ext) ref = Inr hs"
proof -
  assume a: "read_hands h ref = Inr hs"
  then obtain rs where r: "ref < length h" and x: "h ! ref = RefList rs"
    and 1: "read_inner h rs = Inr hs"
    by (auto simp: read_hands_def split: if_splits obj.splits)
  from read_inner_extend [OF 1, of ext] r x show ?thesis
    by (simp add: read_hands_def nth_append)
qed

text \<open>Claim C9: \<open>validate_play\<close> never mutates its \<open>hands\<close> argument: for every call,
  whether it returns or raises, every object that existed before the call is unchanged after
  it, and the caller's list of hands reads the same as before.\<close>

theorem validate_play_frame:
  "take (length h) (snd (validate_play h play_sequence lead hands trump)) = h \<and>
   (\<forall>hs. read_hands h hands = Inr hs \<longrightarrow>
      read_hands (snd (validate_play h play_sequence lead hands trump)) hands = Inr hs)"
proof (intro conjI allI impI)
  let ?h' = "snd (validate_play h play_sequence lead hands trump)"
  show p: "take (length h) ?h' = h" by (rule validate_play_prefix)
  fix hs assume r: "read_hands h hands = Inr hs"
  have "?h' = take (length h) ?h' @ drop (length h) ?h'" by simp
  then have "?h' = h @ drop (length h) ?h'" unfolding p .
  then show "read_hands ?h' hands = Inr hs"
    using read_hands_extend [OF r, of "drop (length h) ?h'"] by simp
qed

theorem validate_play_frame_witness:
  "read_hands [StrList [''HQ''], StrList [''H2''], StrList [''H3''], StrList [''HT''],
               RefList [0, 1, 2, 3]] 4 = Inr [[''HQ''], [''H2''], [''H3''], [''HT'']] \<and>
   fst (validate_play [StrList [''HQ''], StrList [''H2''], StrList [''H3''], StrList [''HT''],
               RefList [0, 1, 2, 3]] ''H3 HTHQ H2'' ''S'' 4 ''H'')
     = Inr (''H3HTHQH2'', [2, 3, 0, 1], 1, 0) \<and>
   read_hands (snd (validate_play [StrList [''HQ''], StrList [''H2''], StrList [''H3''],
               StrList [''HT''], RefList [0, 1, 2, 3]] ''H3 HTHQ H2'' ''S'' 4 ''H'')) 4
     = Inr [[''HQ''], [''H2''], [''H3''], [''HT'']]"
proof -
  let ?h = "[StrList [''HQ''], StrList [''H2''], StrList [''H3''], StrList [''HT''],
             RefList [0, 1, 2, 3]]"
  have a: "read_hands ?h 4 = Inr [[''HQ''], [''H2''], [''H3''], [''HT'']]" by code_simp
  have b: "fst (validate_play ?h ''H3 HTHQ H2'' ''S'' 4 ''H'')
             = Inr (''H3HTHQH2'', [2, 3, 0, 1], 1, 0)" by code_simp
  from validate_play_frame [of ?h "''H3 HTHQ H2''" "''S''" 4 "''H''"] a b
  show ?thesis by blast
qed

text \<open>Claim C6 on the code: with two adjacent illegal tokens the second one survives the
  removal loop, so the play is rejected as unbalanced (or, when the survivors make a multiple
  of four, as an illegal play), although the same play without the illegal tokens is
  valid.\<close>

theorem validate_play_adjacent_illegal_tokens:
  "fst (validate_play [StrList [''HQ''], StrList [''H2''], StrList [''H3''], StrList [''HT''],
          RefList [0, 1, 2, 3]] ''% ! H3 HT HQ H2'' ''S'' 4 ''H'')
     = Inl (PlaySequenceError UnbalancedPlaySequenceError) \<and>
   fst (validate_play [StrList [''HQ''], StrList [''H2''], StrList [''H3''], StrList [''HT''],
          RefList [0, 1, 2, 3]] ''% ! % ! % ! % ! H3 HT HQ H2'' ''S'' 4 ''H'')
     = Inl (PlaySequenceError PlayError) \<and>
   fst (validate_play [StrList [''HQ''], StrList [''H2''], StrList [''H3''], StrList [''HT''],
          RefList [0, 1, 2, 3]] ''H3 HT HQ H2'' ''S'' 4 ''H'')
     = Inr (''H3HTHQH2'', [2, 3, 0, 1], 1, 0)"
  by code_simp

subsection \<open>Board assembly\<close>

lemma clean_board_example:
  "clean_board example_record example_roster =
     Inr (\<lparr>b_names = [''NORTH,1,1'', ''EAST,2,2'', ''SOUTH,3,3'', ''WEST,4,4''],
           b_deal = ''N:AK75.54.987653.A Q.AT983.42.JT753 642.KQJ7.AQJ.962 JT983.62.KT.KQ84'',
           b_bidstart = ''N'', b_auction = ''1D 1H X P P 2C 2D 3C 3D P P P'',
           b_contract = ''3D'', b_declarer = ''N'', b_lead = ''E'',
           b_play = ''SQS2S3SKS5'', b_play_order = [1, 2, 3, 0, 0], b_claim = 9,
           b_NS_vulnerable = True, b_EW_vulnerable = True, b_year = 2000\<rparr>, [], [])"
  by code_simp

text \<open>Claim C3 on the code: on a board whose auction is absent, or invalid, no declarer
  is derivable, yet the directly supplied declarer seat is rejected with
  \<open>DeclarerContradictionError\<close>, because the absent derived declarer is replaced by
  \<open>P\<close> before the comparison.\<close>

theorem clean_board_declarer_without_auction:
  "find_declarer_from_auction [] ''N'' = Inr [] \<and>
   clean_board (example_record\<lparr>r_auction := []\<rparr>) example_roster
     = Inl (BoardError DeclarerContradictionError) \<and>
   validate_auction ''1D 1H X P P 2C 2D 3C 3D P P'' = Inl (AuctionError PassError) \<and>
   clean_board (example_record\<lparr>r_auction := ''1D 1H X P P 2C 2D 3C 3D P P''\<rparr>) example_roster
     = Inl (BoardError DeclarerContradictionError)"
  by code_simp

text \<open>Claim C4 on the code: an event name holding \<open>1,000\<close> matches the year pattern
  with the group \<open>1,00\<close>, \<open>int\<close> raises \<open>ValueError\<close>, and that exception leaves
  \<open>clean_board\<close> although it is not a \<open>BoardError\<close>.\<close>

theorem clean_board_event_with_comma:
  "compute_year ''1,000 Bridge'' ''?'' = Inl ValueError \<and>
   clean_board (example_record\<lparr>r_event := ''1,000 Bridge'', r_date := ''?''\<rparr>) example_roster
     = Inl ValueError"
  by code_simp

end
